theory Spec2Isabelle
  imports Complex_Main "HOL-Library.Multiset" "HOL-Library.AList"
begin

section \<open>Melody values (melody.py)\<close>

text \<open>
  A pitch is an immutable value compared structurally (music21's \<open>Pitch\<close>); it is
  identified here by its name with octave, as in \<open>Pitch("C0")\<close>.
  An event of a melody is a \<open>Note\<close> (a pitch and a duration) or a \<open>Rest\<close> (a duration).
  Durations (\<open>duration.quarterLength\<close>) and the parameters the source types as
  \<open>float\<close> (durations, grid sizes) are exact rationals, as the data model of the
  specification has them. A melody is the ordered sequence of its events (the elements
  of the music21 stream in the order they were appended).
\<close>

datatype pitch = Pitch string

datatype event =
    is_Note: Note (pitch: pitch) (quarterLength: rat)
  | is_Rest: Rest (quarterLength: rat)

type_synonym melody = "event list"

text \<open>\<open>Melody.notes\<close>: the Note events, in order; \<open>Melody.length\<close>: their number.\<close>

definition melody_notes :: "melody \<Rightarrow> event list" where
  "melody_notes m = filter is_Note m"

definition melody_length :: "melody \<Rightarrow> nat" where
  "melody_length m = length (melody_notes m)"

text \<open>The total duration of a melody: the sum of the durations of its events.\<close>

definition total_duration :: "melody \<Rightarrow> rat" where
  "total_duration m = sum_list (map quarterLength m)"

text \<open>The exceptions the modelled code raises.\<close>

datatype error =
    Exception string
  | ValueError
  | IndexError
  | ZeroDivisionError
  | TypeError
  | AttributeError
  | KeyError

text \<open>
  Modelled from the spec: \<open>Tools.fraction_gcd\<close> (library/tools.py is not among the
  sources); the greatest common divisor of two exact rationals, the gcd of the numerators
  over the lcm of the denominators of the fractions in lowest terms.
\<close>

definition fraction_gcd :: "rat \<Rightarrow> rat \<Rightarrow> rat" where
  "fraction_gcd x y =
     (let (a, b) = quotient_of x; (c, d) = quotient_of y
      in of_int (gcd a c) / of_int (lcm b d))"

text \<open>
  \<open>Melody.grid_size\<close>: \<open>functools.reduce(Tools.fraction_gcd, durations)\<close>, which raises
  TypeError on a melody without events. The source converts the result to a float; the
  model keeps the exact rational.
\<close>

definition melody_grid_size :: "melody \<Rightarrow> error + rat" where
  "melody_grid_size m =
     (case map quarterLength m of
        [] \<Rightarrow> Inl TypeError
      | d # durations \<Rightarrow> Inr (foldl fraction_gcd d durations))"

subsection \<open>Melody.normalize\<close>

text \<open>
  \<open>drop_null_rests\<close> removes every Rest whose duration is 0.
  \<open>join_consecutive_rests\<close> walks the pairs of neighbours from left to right; when both
  are Rests the right one takes the sum of both durations and the left one is set to 0.
  The objects are mutated in place, so the right element of a pair is read, already
  updated, as the left element of the next pair.
\<close>

definition null_rest :: "event \<Rightarrow> bool" where
  "null_rest obj = (is_Rest obj \<and> quarterLength obj = 0)"

definition drop_null_rests :: "melody \<Rightarrow> melody" where
  "drop_null_rests m = filter (\<lambda>obj. \<not> null_rest obj) m"

fun join_consecutive_rests :: "melody \<Rightarrow> melody" where
  "join_consecutive_rests (obj_1 # obj_2 # objs) =
     (if is_Rest obj_1 \<and> is_Rest obj_2
      then Rest 0 # join_consecutive_rests (Rest (quarterLength obj_2 + quarterLength obj_1) # objs)
      else obj_1 # join_consecutive_rests (obj_2 # objs))"
| "join_consecutive_rests objs = objs"

definition normalize_melody :: "melody \<Rightarrow> melody" where
  "normalize_melody m = drop_null_rests (join_consecutive_rests (drop_null_rests m))"

text \<open>Two Rests next to each other somewhere in the melody.\<close>

fun consecutive_rests :: "melody \<Rightarrow> bool" where
  "consecutive_rests (obj_1 # obj_2 # objs) =
     ((is_Rest obj_1 \<and> is_Rest obj_2) \<or> consecutive_rests (obj_2 # objs))"
| "consecutive_rests objs = False"


section \<open>The random source (Python's random module)\<close>

text \<open>
  The process-wide pseudo-random generator is an explicit stream of natural numbers
  (a function from positions to numbers) that every drawing function consumes from the
  front; a theorem for every stream covers every outcome of the generator.
  \<open>randbelow n\<close> is \<open>Random._randbelow(n)\<close>: a number below \<open>n\<close>.
\<close>

type_synonym rng = "nat \<Rightarrow> nat"

definition randbelow :: "nat \<Rightarrow> rng \<Rightarrow> nat \<times> rng" where
  "randbelow n g = (g 0 mod n, (\<lambda>i. g (Suc i)))"

text \<open>\<open>random.choice(seq)\<close>: IndexError on an empty sequence.\<close>

definition choice :: "'a list \<Rightarrow> rng \<Rightarrow> error + ('a \<times> rng)" where
  "choice seq g =
     (if seq = [] then Inl IndexError
      else (let (i, g') = randbelow (length seq) g in Inr (seq ! i, g')))"

text \<open>\<open>random.randint(a, b)\<close>: a number of the closed range; ValueError when it is empty.\<close>

definition randint :: "int \<Rightarrow> int \<Rightarrow> rng \<Rightarrow> error + (int \<times> rng)" where
  "randint a b g =
     (if b < a then Inl ValueError
      else (let (i, g') = randbelow (nat (b - a + 1)) g in Inr (a + int i, g')))"

text \<open>
  \<open>random.shuffle(x)\<close>: for \<open>i\<close> from \<open>len(x) - 1\<close> down to 1, swap \<open>x[i]\<close> with
  \<open>x[j]\<close> for a random \<open>j \<le> i\<close>.
\<close>

primrec shuffle_from :: "nat \<Rightarrow> 'a list \<Rightarrow> rng \<Rightarrow> 'a list \<times> rng" where
  "shuffle_from 0 x g = (x, g)"
| "shuffle_from (Suc i) x g =
     (let (j, g') = randbelow (Suc i + 1) g
      in shuffle_from i (x[Suc i := x ! j, j := x ! Suc i]) g')"

definition shuffle :: "'a list \<Rightarrow> rng \<Rightarrow> 'a list \<times> rng" where
  "shuffle x g = shuffle_from (length x - 1) x g"

text \<open>
  \<open>random.sample(population, k)\<close>: ValueError unless \<open>0 \<le> k \<le> len(population)\<close>;
  then \<open>k\<close> selections without replacement from a pool: the selected item is taken
  out and the last item of the pool moves into its place (the pool algorithm of
  CPython; its other algorithm, for large populations, selects from the same outcomes).
\<close>

primrec sample_pool :: "'a list \<Rightarrow> nat \<Rightarrow> rng \<Rightarrow> 'a list \<times> rng" where
  "sample_pool pool 0 g = ([], g)"
| "sample_pool pool (Suc k) g =
     (let (j, g') = randbelow (length pool) g;
          (result, g'') = sample_pool (butlast (pool[j := last pool])) k g'
      in (pool ! j # result, g''))"

definition sample :: "'a list \<Rightarrow> int \<Rightarrow> rng \<Rightarrow> error + ('a list \<times> rng)" where
  "sample population k g =
     (if k < 0 \<or> int (length population) < k then Inl ValueError
      else Inr (sample_pool population (nat k) g))"

text \<open>
  \<open>random.choices(population, k=k)\<close>: \<open>k\<close> independent selections with replacement
  (none for \<open>k \<le> 0\<close>); indexing an empty population raises IndexError.
\<close>

primrec choices_loop :: "'a list \<Rightarrow> nat \<Rightarrow> rng \<Rightarrow> 'a list \<times> rng" where
  "choices_loop population 0 g = ([], g)"
| "choices_loop population (Suc k) g =
     (let (i, g') = randbelow (length population) g;
          (result, g'') = choices_loop population k g'
      in (population ! i # result, g''))"

definition choices :: "'a list \<Rightarrow> int \<Rightarrow> rng \<Rightarrow> error + ('a list \<times> rng)" where
  "choices population k g =
     (if population = [] \<and> 0 < k then Inl IndexError
      else Inr (choices_loop population (nat k) g))"


section \<open>The operations (service.py)\<close>

datatype DurationMode = Minimum | Maximum | Random | Fixed

datatype AmountMode = Minimum | Maximum | Random | Fixed

text \<open>Python's \<open>int(x)\<close> on a number: truncation towards zero.\<close>

definition py_int :: "rat \<Rightarrow> int" where
  "py_int x = (if 0 \<le> x then \<lfloor>x\<rfloor> else \<lceil>x\<rceil>)"

text \<open>Python's \<open>max(xs)\<close>: ValueError on an empty list.\<close>

definition py_max :: "int list \<Rightarrow> error + int" where
  "py_max xs = (case xs of [] \<Rightarrow> Inl ValueError | x # xs' \<Rightarrow> Inr (fold max xs' x))"

text \<open>A fresh \<open>Note\<close> has music21's default pitch until a pitch is assigned.\<close>

definition default_pitch :: pitch where
  "default_pitch = Pitch ''C4''"

text \<open>
  \<open>for note, pitch in zip(melody.notes, pitches): note.pitch = pitch\<close>: the Notes take
  the pitches in order; Rests and durations stay, and so do the Notes beyond the last pitch.
\<close>

fun assign_pitches :: "melody \<Rightarrow> pitch list \<Rightarrow> melody" where
  "assign_pitches [] ps = []"
| "assign_pitches (Rest d # objs) ps = Rest d # assign_pitches objs ps"
| "assign_pitches (Note p d # objs) [] = Note p d # assign_pitches objs []"
| "assign_pitches (Note p d # objs) (q # qs) = Note q d # assign_pitches objs qs"

subsection \<open>GenerateMelody: the rhythm\<close>

text \<open>
  Random and Maximum duration: between the start slots of two neighbouring notes lie
  \<open>grid_between\<close> slots; the note takes \<open>note_grid\<close> of them and a Rest the others.
\<close>

definition split_gap :: "DurationMode \<Rightarrow> int \<Rightarrow> rng \<Rightarrow> error + ((int \<times> int) \<times> rng)" where
  "split_gap duration_mode grid_between g =
     (if grid_between = 0 then Inr ((1, 0), g)
      else
        (let posible_note_grid = [1..grid_between] in
         case (if duration_mode = DurationMode.Random then choice posible_note_grid g
               else (case py_max posible_note_grid of Inl e \<Rightarrow> Inl e | Inr mx \<Rightarrow> Inr (mx, g)))
         of Inl e \<Rightarrow> Inl e
          | Inr (note_grid, g') \<Rightarrow>
              (case py_max posible_note_grid of
                 Inl e \<Rightarrow> Inl e
               | Inr mx \<Rightarrow> Inr ((note_grid, mx - note_grid), g'))))"

fun fill_pairwise :: "DurationMode \<Rightarrow> rat \<Rightarrow> int list \<Rightarrow> rng \<Rightarrow> error + (melody \<times> rng)" where
  "fill_pairwise duration_mode grid_size (note_idx # next_note_idx # note_indices) g =
     (case split_gap duration_mode (next_note_idx - note_idx) g of
        Inl e \<Rightarrow> Inl e
      | Inr ((note_grid, rest_grid), g') \<Rightarrow>
          (case fill_pairwise duration_mode grid_size (next_note_idx # note_indices) g' of
             Inl e \<Rightarrow> Inl e
           | Inr (melody_objects, g'') \<Rightarrow>
               Inr (Note default_pitch (of_int note_grid * grid_size)
                      # (if rest_grid \<noteq> 0 then [Rest (of_int rest_grid * grid_size)] else [])
                      @ melody_objects, g'')))"
| "fill_pairwise duration_mode grid_size note_indices g = Inr ([], g)"

definition random_rhythm ::
  "int \<Rightarrow> rat \<Rightarrow> rat \<Rightarrow> DurationMode \<Rightarrow> rng \<Rightarrow> error + (melody \<times> rng)" where
  "random_rhythm length' duration grid_size duration_mode g =
     (let grid_indices = [0 ..< nat (py_int (duration / grid_size))] in
      case sample (map int grid_indices) length' g of
        Inl e \<Rightarrow> Inl e
      | Inr (sampled, g1) \<Rightarrow>
          (let note_indices = sort sampled @ [int (length grid_indices)] in
           case note_indices of
             [] \<Rightarrow> Inl IndexError
           | first # _ \<Rightarrow>
               (let first_rest_duration = of_int first * grid_size in
                case fill_pairwise duration_mode grid_size note_indices g1 of
                  Inl e \<Rightarrow> Inl e
                | Inr (melody_objects, g2) \<Rightarrow>
                    Inr ((if first_rest_duration \<noteq> 0 then [Rest first_rest_duration] else [])
                           @ melody_objects, g2))))"

text \<open>
  Minimum and Fixed duration: \<open>length\<close> notes of one duration, the free slots as Rests of
  one slot each, shuffled, then normalized.
\<close>

definition fixed_rhythm ::
  "int \<Rightarrow> rat \<Rightarrow> rat \<Rightarrow> rat \<Rightarrow> rng \<Rightarrow> melody \<times> rng" where
  "fixed_rhythm length' duration grid_size note_duration g =
     (let melody_objects = replicate (nat length') (Note default_pitch note_duration);
          n_rests = py_int (duration / grid_size) - py_int (of_int length' * note_duration / grid_size);
          (shuffled, g1) = shuffle (melody_objects @ replicate (nat n_rests) (Rest grid_size)) g
      in (normalize_melody shuffled, g1))"

subsection \<open>GenerateMelody: the pitches\<close>

text \<open>
  \<open>chosen_pitches.insert(idx, pitch)\<close>, and the search for a place where the pitch
  differs from both neighbours: a random index of those left is tried; a refused index is
  removed from the candidates; with no candidate left nothing is inserted. The
  candidates are indices of \<open>range(len(chosen_pitches) + 1)\<close>.
\<close>

definition insert_at :: "nat \<Rightarrow> 'a \<Rightarrow> 'a list \<Rightarrow> 'a list" where
  "insert_at idx x xs = take idx xs @ x # drop idx xs"

function try_insert ::
  "pitch list \<Rightarrow> pitch \<Rightarrow> nat list \<Rightarrow> rng \<Rightarrow> error + (pitch list \<times> rng)" where
  "try_insert chosen_pitches pitch_to_insert indices_to_insert g =
     (if indices_to_insert = [] then Inr (chosen_pitches, g)
      else
        (case choice indices_to_insert g of
           Inl e \<Rightarrow> Inl e
         | Inr (idx_to_insert, g') \<Rightarrow>
             (let prev_pitch = (if idx_to_insert > 0
                                then Some (chosen_pitches ! (idx_to_insert - 1)) else None);
                  next_pitch = (if idx_to_insert < length chosen_pitches
                                then Some (chosen_pitches ! idx_to_insert) else None);
                  can_insert_pitch = (prev_pitch \<noteq> Some pitch_to_insert
                                      \<and> next_pitch \<noteq> Some pitch_to_insert)
              in if can_insert_pitch
                 then Inr (insert_at idx_to_insert pitch_to_insert chosen_pitches, g')
                 else try_insert chosen_pitches pitch_to_insert
                        (remove1 idx_to_insert indices_to_insert) g')))"
  by pat_completeness auto
termination
proof (relation "measure (\<lambda>(c, p, indices, g). length indices)")
  show "wf (measure (\<lambda>(c, p, indices, g). length indices))" by simp
next
  fix chosen_pitches :: "pitch list" and pitch_to_insert :: pitch
    and indices_to_insert :: "nat list" and g :: rng and x :: "nat \<times> rng"
    and idx_to_insert :: nat and g' :: rng
  assume ne: "indices_to_insert \<noteq> []"
    and ch: "choice indices_to_insert g = Inr x"
    and x: "(idx_to_insert, g') = x"
  from ne ch x have "idx_to_insert = indices_to_insert ! (g 0 mod length indices_to_insert)"
    by (auto simp: choice_def randbelow_def)
  with ne have "idx_to_insert \<in> set indices_to_insert" by simp
  then have "length (remove1 idx_to_insert indices_to_insert) < length indices_to_insert"
    by (simp add: length_remove1) (use ne in \<open>cases indices_to_insert; simp\<close>)
  then show "((chosen_pitches, pitch_to_insert, remove1 idx_to_insert indices_to_insert, g'),
              (chosen_pitches, pitch_to_insert, indices_to_insert, g))
             \<in> measure (\<lambda>(c, p, indices, g). length indices)"
    by simp
qed

declare try_insert.simps [simp del]

text \<open>
  \<open>while len(chosen_pitches) < length\<close>: a random pitch is drawn and a place sought for
  it; the loop goes on until the sequence is long enough, and it need not end.
\<close>

partial_function (option) alternate_loop ::
  "pitch list \<Rightarrow> int \<Rightarrow> pitch list \<Rightarrow> rng \<Rightarrow> (error + (pitch list \<times> rng)) option" where
  "alternate_loop pitches length' chosen_pitches g =
     (if int (length chosen_pitches) < length' then
        (case choice pitches g of
           Inl e \<Rightarrow> Some (Inl e)
         | Inr (pitch_to_insert, g1) \<Rightarrow>
             (case try_insert chosen_pitches pitch_to_insert
                     [0 ..< length chosen_pitches + 1] g1 of
                Inl e \<Rightarrow> Some (Inl e)
              | Inr (chosen_pitches', g2) \<Rightarrow> alternate_loop pitches length' chosen_pitches' g2))
      else Some (Inr (chosen_pitches, g)))"

declare alternate_loop.simps [code]

definition choose_pitches ::
  "pitch list \<Rightarrow> int \<Rightarrow> bool \<Rightarrow> bool \<Rightarrow> rng \<Rightarrow> (error + (pitch list \<times> rng)) option" where
  "choose_pitches pitches length' alternate use_all g =
     (if \<not> alternate then
        (case (if \<not> use_all then choices pitches length' g
               else (case choices pitches (length' - int (length pitches)) g of
                       Inl e \<Rightarrow> Inl e
                     | Inr (more, g1) \<Rightarrow> Inr (pitches @ more, g1)))
         of Inl e \<Rightarrow> Some (Inl e)
          | Inr (chosen_pitches, g1) \<Rightarrow> Some (Inr (shuffle chosen_pitches g1)))
      else
        (let (chosen_pitches, g1) = (if use_all then shuffle pitches g else ([], g))
         in alternate_loop pitches length' chosen_pitches g1))"


subsection \<open>GenerateMelody\<close>

text \<open>
  The result is \<open>None\<close> when the call does not return (the alternating loop can go on
  for ever), \<open>Some (Inl e)\<close> when it raises and \<open>Some (Inr (melody, g))\<close> when it
  returns \<open>melody\<close>, with the rest of the random stream. \<open>list(set(pitches))\<close> keeps one
  of each pitch (in an order that Python does not fix; the model keeps the order of the
  last occurrences). A division by a grid size of 0 raises ZeroDivisionError.
\<close>

definition GenerateMelody ::
  "pitch list \<Rightarrow> int \<Rightarrow> rat \<Rightarrow> rat \<Rightarrow> DurationMode \<Rightarrow> rat option \<Rightarrow> bool \<Rightarrow> bool \<Rightarrow> rng
     \<Rightarrow> (error + (melody \<times> rng)) option" where
  "GenerateMelody pitches0 length' duration grid_size duration_mode note_duration alternate use_all g =
     (let pitches = remdups pitches0 in
      if length' \<le> 0 then Some (Inr ([], g))
      else if duration < grid_size
        then Some (Inl (Exception ''Duration must be greater than grid_size''))
      else if grid_size = 0 then Some (Inl ZeroDivisionError)
      else if of_int (py_int (duration / grid_size)) \<noteq> duration / grid_size
        then Some (Inl (Exception ''Duration is not evenly divisible by grid_size''))
      else if py_int (duration / grid_size) < length'
        then Some (Inl (Exception ''Too many notes for given duration and grid_size''))
      else if duration_mode = DurationMode.Fixed \<and> (note_duration = None \<or> note_duration = Some 0)
        then Some (Inl (Exception ''Note length not set''))
      else if duration_mode = DurationMode.Fixed \<and> the note_duration * of_int length' > duration
        then Some (Inl (Exception ''Too many notes for given durations''))
      else if duration_mode = DurationMode.Fixed \<and> the note_duration < grid_size
        then Some (Inl (Exception ''Note duration must be greater than grid_size''))
      else if duration_mode = DurationMode.Fixed
              \<and> of_int (py_int (the note_duration / grid_size)) \<noteq> the note_duration / grid_size
        then Some (Inl (Exception ''Note duration is not evenly divisible by grid_size''))
      else if alternate \<and> length pitches < 2
        then Some (Inl (Exception ''Too few pitches to alternate''))
      else if use_all \<and> int (length pitches) > length'
        then Some (Inl (Exception ''Too short length to use all notes''))
      else
        (case (if duration_mode = DurationMode.Random \<or> duration_mode = DurationMode.Maximum
               then random_rhythm length' duration grid_size duration_mode g
               else Inr (fixed_rhythm length' duration grid_size
                           (if duration_mode = DurationMode.Minimum then grid_size
                            else the note_duration) g))
         of Inl e \<Rightarrow> Some (Inl e)
          | Inr (melody, g1) \<Rightarrow>
              (case choose_pitches pitches length' alternate use_all g1 of
                 None \<Rightarrow> None
               | Some (Inl e) \<Rightarrow> Some (Inl e)
               | Some (Inr (chosen_pitches, g2)) \<Rightarrow>
                   Some (Inr (assign_pitches melody chosen_pitches, g2)))))"

text \<open>Two equal pitches next to each other somewhere in a sequence of pitches.\<close>

fun adjacent_equal :: "pitch list \<Rightarrow> bool" where
  "adjacent_equal (p # q # ps) = (p = q \<or> adjacent_equal (q # ps))"
| "adjacent_equal ps = False"

subsection \<open>The transforming operations\<close>

text \<open>
  Every operation works on \<open>copy.deepcopy(melody)\<close>; on values the copy is the melody
  itself. The notes the operations pick (\<open>random.sample(melody.notes, ...)\<close>) are
  references to Note objects; on values a picked note is its position in \<open>melody.notes\<close>,
  and \<open>set_note_pitch melody i q\<close> is \<open>melody.notes[i].pitch = q\<close>. The messages of
  the raised exceptions are kept without the numbers formatted into them.
\<close>

fun set_note_pitch :: "melody \<Rightarrow> nat \<Rightarrow> pitch \<Rightarrow> melody" where
  "set_note_pitch [] i q = []"
| "set_note_pitch (Rest d # objs) i q = Rest d # set_note_pitch objs i q"
| "set_note_pitch (Note p d # objs) 0 q = Note q d # objs"
| "set_note_pitch (Note p d # objs) (Suc i) q = Note p d # set_note_pitch objs i q"

text \<open>\<open>RevertPitch\<close>: every Note takes the pitch of its counterpart from the end.\<close>

definition RevertPitch :: "melody \<Rightarrow> melody" where
  "RevertPitch melody =
     (if melody_length melody < 2 then melody
      else (let melody_notes' = melody_notes melody;
                reversed_notes = rev melody_notes'
            in assign_pitches melody (map pitch reversed_notes)))"

text \<open>
  Python's slices \<open>xs[a:]\<close> and \<open>xs[:a]\<close> for any integer \<open>a\<close>: a negative index
  counts from the end, and an index beyond either end is clamped.
\<close>

definition slice_index :: "int \<Rightarrow> nat \<Rightarrow> nat" where
  "slice_index a n = (if a < 0 then nat (max 0 (int n + a)) else min (nat a) n)"

definition slice_from :: "'a list \<Rightarrow> int \<Rightarrow> 'a list" where
  "slice_from xs a = drop (slice_index a (length xs)) xs"

definition slice_to :: "'a list \<Rightarrow> int \<Rightarrow> 'a list" where
  "slice_to xs a = take (slice_index a (length xs)) xs"

text \<open>
  \<open>ShiftPitch\<close>: the random amount is drawn first, whatever the mode; then the mode
  chooses the amount; then a melody of fewer than 2 notes is returned as it is.
\<close>

definition ShiftPitch ::
  "melody \<Rightarrow> AmountMode \<Rightarrow> int option \<Rightarrow> rng \<Rightarrow> error + (melody \<times> rng)" where
  "ShiftPitch melody amount_mode amount0 g =
     (let min_amount = 1;
          max_amount = int (melody_length melody) - 1
      in case randint min_amount max_amount g of
           Inl e \<Rightarrow> Inl e
         | Inr (random_amount, g1) \<Rightarrow>
             (let amount = (case amount_mode of
                              AmountMode.Minimum \<Rightarrow> Some min_amount
                            | AmountMode.Maximum \<Rightarrow> Some max_amount
                            | AmountMode.Random \<Rightarrow> Some random_amount
                            | AmountMode.Fixed \<Rightarrow> amount0)
              in if melody_length melody < 2 then Inr (melody, g1)
                 else (case amount of
                         None \<Rightarrow> Inl (Exception ''Invalid amount'')
                       | Some a \<Rightarrow>
                           if a = 0 then Inl (Exception ''Invalid amount'')
                           else (let shifted_notes = slice_from (melody_notes melody) a
                                                       @ slice_to (melody_notes melody) a
                                 in Inr (assign_pitches melody (map pitch shifted_notes), g1)))))"

text \<open>\<open>for note_index, shuffled_pitch in zip(...): melody.notes[note_index].pitch = shuffled_pitch\<close>\<close>

fun set_pitches_at :: "melody \<Rightarrow> (nat \<times> pitch) list \<Rightarrow> melody" where
  "set_pitches_at melody [] = melody"
| "set_pitches_at melody ((note_index, shuffled_pitch) # rest) =
     set_pitches_at (set_note_pitch melody note_index shuffled_pitch) rest"

definition ShufflePitch ::
  "melody \<Rightarrow> AmountMode \<Rightarrow> int option \<Rightarrow> rng \<Rightarrow> error + (melody \<times> rng)" where
  "ShufflePitch melody amount_mode amount0 g =
     (let min_amount = 2;
          max_amount = int (melody_length melody)
      in case randint min_amount max_amount g of
           Inl e \<Rightarrow> Inl e
         | Inr (random_amount, g1) \<Rightarrow>
             (let amount = (case amount_mode of
                              AmountMode.Minimum \<Rightarrow> Some min_amount
                            | AmountMode.Maximum \<Rightarrow> Some max_amount
                            | AmountMode.Random \<Rightarrow> Some random_amount
                            | AmountMode.Fixed \<Rightarrow> amount0)
              in if melody_length melody < 2 then Inr (melody, g1)
                 else (case amount of
                         None \<Rightarrow> Inl (Exception ''Invalid amount'')
                       | Some a \<Rightarrow>
                           if a = 0 then Inl (Exception ''Invalid amount'')
                           else if a > int (melody_length melody)
                             then Inl (Exception ''amount > melody.length'')
                           else
                             (case sample [0 ..< melody_length melody] a g1 of
                                Inl e \<Rightarrow> Inl e
                              | Inr (note_indexes, g2) \<Rightarrow>
                                  (let (shuffled_indexes, g3) = shuffle note_indexes g2;
                                       shuffled_pitches =
                                         map (\<lambda>si. pitch (melody_notes melody ! si)) shuffled_indexes
                                   in Inr (set_pitches_at melody (zip note_indexes shuffled_pitches),
                                           g3))))))"

text \<open>
  \<open>ChangePitch\<close>: the notes to change are drawn by \<open>random.choices\<close>; each of them, in
  the order drawn, takes a random pitch of \<open>pitches\<close> (by default the pitches of the
  melody itself).
\<close>

fun change_each :: "melody \<Rightarrow> nat list \<Rightarrow> pitch list \<Rightarrow> rng \<Rightarrow> error + (melody \<times> rng)" where
  "change_each melody [] pitches g = Inr (melody, g)"
| "change_each melody (note # notes_to_change) pitches g =
     (case choice pitches g of
        Inl e \<Rightarrow> Inl e
      | Inr (random_pitch, g') \<Rightarrow>
          change_each (set_note_pitch melody note random_pitch) notes_to_change pitches g')"

definition ChangePitch ::
  "melody \<Rightarrow> AmountMode \<Rightarrow> int option \<Rightarrow> pitch list option \<Rightarrow> rng \<Rightarrow> error + (melody \<times> rng)" where
  "ChangePitch melody amount_mode amount0 pitches0 g =
     (let pitches1 = (case pitches0 of
                        None \<Rightarrow> map pitch (melody_notes melody)
                      | Some ps \<Rightarrow> if ps = [] then map pitch (melody_notes melody) else ps);
          pitches = remdups pitches1
      in case (case amount_mode of
                 AmountMode.Minimum \<Rightarrow> Inr (Some 1, g)
               | AmountMode.Random \<Rightarrow>
                   (case randint 1 (int (melody_length melody)) g of
                      Inl e \<Rightarrow> Inl e
                    | Inr (r, g1) \<Rightarrow> Inr (Some r, g1))
               | AmountMode.Maximum \<Rightarrow> Inr (Some (int (melody_length melody)), g)
               | AmountMode.Fixed \<Rightarrow> Inr (amount0, g))
         of Inl e \<Rightarrow> Inl e
          | Inr (amount, g1) \<Rightarrow>
              if amount_mode = AmountMode.Fixed \<and> (amount = None \<or> amount = Some 0)
                then Inl (Exception ''Invalid amount'')
              else if amount_mode = AmountMode.Fixed \<and> the amount > int (melody_length melody)
                then Inl (Exception ''Invalid amount'')
              else
                (case choices [0 ..< melody_length melody] (the amount) g1 of
                   Inl e \<Rightarrow> Inl e
                 | Inr (notes_to_change, g2) \<Rightarrow> change_each melody notes_to_change pitches g2))"

subsection \<open>ConcatMelodies\<close>

text \<open>
  Python's truth value of a parameter that is \<open>None\<close> or a \<open>Melody\<close>: \<open>None\<close> is false,
  and a music21 stream is false when it has no elements.
\<close>

definition truthy :: "melody option \<Rightarrow> bool" where
  "truthy v = (case v of None \<Rightarrow> False | Some m \<Rightarrow> m \<noteq> [])"

text \<open>
  \<open>Melody.__add__\<close> appends the events of a copy of the second melody to a copy of the
  first. \<open>ConcatMelodies\<close> keeps the parameters that are true and folds them from the
  left; with none left it returns an empty melody.
\<close>

definition melody_add :: "melody \<Rightarrow> melody \<Rightarrow> melody" where
  "melody_add self other = self @ other"

definition ConcatMelodies ::
  "melody option \<Rightarrow> melody option \<Rightarrow> melody option \<Rightarrow> melody option \<Rightarrow> melody" where
  "ConcatMelodies melody_1 melody_2 melody_3 melody_4 =
     (let melodies = map the (filter truthy [melody_1, melody_2, melody_3, melody_4])
      in case melodies of
           [] \<Rightarrow> []
         | m # ms \<Rightarrow> foldl melody_add m ms)"

section \<open>Formula nodes (formula.py)\<close>

text \<open>
  A value bound to a parameter of a formula, and the keyword arguments a service method
  is called with.
\<close>

datatype arg =
    ANone
  | AMelody melody
  | AInt int
  | APitches "pitch list"
  | AAmountMode AmountMode

type_synonym kwargs = "(string \<times> arg) list"

text \<open>
  \<open>MelodyFormula\<close>: the name of the service method, the parameters (a dict, in insertion
  order; a parameter is a value or another formula), the three optional hooks and the
  memo slot \<open>_value\<close>. A hook is a callable of the owner of the node; it is modelled by a
  label of type \<open>'h\<close>, and calling it appends the label to the trace of the run.
\<close>

datatype 'h formula =
  MelodyFormula
    (method_name: string)
    (params: "(string \<times> 'h param) list")
    (on_success: "'h option")
    (on_error: "'h option")
    (on_clear: "'h option")
    (cached: "melody option")
and 'h param = Value arg | Formula "'h formula"

text \<open>
  What a run leaves behind: hooks called, and calls of service methods (the calls are
  recorded to tell a computation from a cache hit).
\<close>

datatype 'h action = Hook 'h | Call string

type_synonym 'h world = "rng \<times> 'h action list"

definition call_hook :: "'h option \<Rightarrow> 'h action list" where
  "call_hook h = (case h of None \<Rightarrow> [] | Some l \<Rightarrow> [Hook l])"

text \<open>
  The service methods \<open>getattr(MelodyService, method_name)\<close> are a parameter \<open>service\<close>
  of the evaluation: a method takes the keyword arguments and the random stream, and
  raises or returns a melody. (A raising method hands no stream back: the numbers it
  has consumed are not tracked.)
\<close>

type_synonym service = "string \<Rightarrow> kwargs \<Rightarrow> rng \<Rightarrow> error + (melody \<times> rng)"

text \<open>
  The property \<open>MelodyFormula.value\<close>. If \<open>not self._value\<close>: the parameters are
  resolved in order, a formula by its own \<open>value\<close> (outside the \<open>try\<close> block, so an
  exception of a dependency leaves at once); then the service method is called inside
  the \<open>try\<close> block: an exception calls \<open>on_error\<close> and is raised again, a result is
  stored in \<open>_value\<close> and \<open>on_success\<close> is called. At the end \<open>self._value\<close> is
  returned. The formulas are mutable objects: the evaluation returns the node with its
  dependencies as the run has left them.
\<close>

fun formula_value ::
  "service \<Rightarrow> 'h formula \<Rightarrow> 'h world \<Rightarrow> (error + melody) \<times> 'h formula \<times> 'h world"
and resolve_params ::
  "service \<Rightarrow> (string \<times> 'h param) list \<Rightarrow> 'h world
     \<Rightarrow> (error + kwargs) \<times> (string \<times> 'h param) list \<times> 'h world"
where
  "formula_value service (MelodyFormula name ps succ err clr v) w =
     (if \<not> truthy v then
        (case resolve_params service ps w of
           (Inl e, ps', w') \<Rightarrow> (Inl e, MelodyFormula name ps' succ err clr v, w')
         | (Inr kw, ps', (g, trace)) \<Rightarrow>
             (case service name kw g of
                Inl e \<Rightarrow>
                  (Inl e, MelodyFormula name ps' succ err clr v,
                   (g, trace @ [Call name] @ call_hook err))
              | Inr (melody, g') \<Rightarrow>
                  (Inr melody, MelodyFormula name ps' succ err clr (Some melody),
                   (g', trace @ [Call name] @ call_hook succ))))
      else (Inr (the v), MelodyFormula name ps succ err clr v, w))"
| "resolve_params service [] w = (Inr [], [], w)"
| "resolve_params service ((k, Value a) # ps) w =
     (case resolve_params service ps w of
        (Inl e, ps', w') \<Rightarrow> (Inl e, (k, Value a) # ps', w')
      | (Inr kw, ps', w') \<Rightarrow> (Inr ((k, a) # kw), (k, Value a) # ps', w'))"
| "resolve_params service ((k, Formula f) # ps) w =
     (case formula_value service f w of
        (Inl e, f', w') \<Rightarrow> (Inl e, (k, Formula f') # ps, w')
      | (Inr melody, f', w') \<Rightarrow>
          (case resolve_params service ps w' of
             (Inl e, ps', w'') \<Rightarrow> (Inl e, (k, Formula f') # ps', w'')
           | (Inr kw, ps', w'') \<Rightarrow> (Inr ((k, AMelody melody) # kw), (k, Formula f') # ps', w'')))"

text \<open>\<open>clear_value\<close> and \<open>update_params\<close> (\<open>dict.update\<close>, then \<open>clear_value\<close>).\<close>

definition clear_value :: "'h formula \<Rightarrow> 'h action list \<Rightarrow> 'h formula \<times> 'h action list" where
  "clear_value f trace =
     (MelodyFormula (method_name f) (params f) (on_success f) (on_error f) (on_clear f) None,
      trace @ call_hook (on_clear f))"

definition update_params ::
  "'h formula \<Rightarrow> (string \<times> 'h param) list \<Rightarrow> 'h action list \<Rightarrow> 'h formula \<times> 'h action list" where
  "update_params f new_params trace =
     clear_value
       (MelodyFormula (method_name f) (fold (\<lambda>(k, v). AList.update k v) new_params (params f))
          (on_success f) (on_error f) (on_clear f) (cached f))
       trace"

text \<open>
  The binding of keyword arguments for the service methods of this theory that a
  formula can name: an absent keyword takes the default of the signature, an argument
  of another kind than the method works with ends in TypeError (AttributeError for a
  melody that is \<open>None\<close>). Other names are not bound in this table.
\<close>

definition melody_kw :: "kwargs \<Rightarrow> string \<Rightarrow> error + melody option" where
  "melody_kw kw k =
     (case map_of kw k of
        None \<Rightarrow> Inr None
      | Some ANone \<Rightarrow> Inr None
      | Some (AMelody m) \<Rightarrow> Inr (Some m)
      | Some _ \<Rightarrow> Inl TypeError)"

definition service_method :: service where
  "service_method name kw g =
     (if name = ''ConcatMelodies'' then
        (case (melody_kw kw ''melody_1'', melody_kw kw ''melody_2'',
               melody_kw kw ''melody_3'', melody_kw kw ''melody_4'') of
           (Inr m1, Inr m2, Inr m3, Inr m4) \<Rightarrow> Inr (ConcatMelodies m1 m2 m3 m4, g)
         | _ \<Rightarrow> Inl TypeError)
      else if name = ''RevertPitch'' then
        (case melody_kw kw ''melody'' of
           Inr (Some m) \<Rightarrow> Inr (RevertPitch m, g)
         | Inr None \<Rightarrow> Inl AttributeError
         | Inl e \<Rightarrow> Inl e)
      else if name = ''ChangePitch'' then
        (case (melody_kw kw ''melody'', map_of kw ''amount_mode'', map_of kw ''amount'',
               map_of kw ''pitches'') of
           (Inr (Some m), mode, amount, pitches) \<Rightarrow>
             (case (case mode of None \<Rightarrow> Some AmountMode.Random
                               | Some (AAmountMode md) \<Rightarrow> Some md | Some _ \<Rightarrow> None,
                    case amount of None \<Rightarrow> Some None | Some ANone \<Rightarrow> Some None
                               | Some (AInt a) \<Rightarrow> Some (Some a) | Some _ \<Rightarrow> None,
                    case pitches of None \<Rightarrow> Some None | Some ANone \<Rightarrow> Some None
                               | Some (APitches ps) \<Rightarrow> Some (Some ps) | Some _ \<Rightarrow> None) of
                (Some md, Some a, Some ps) \<Rightarrow> ChangePitch m md a ps g
              | _ \<Rightarrow> Inl TypeError)
         | (Inr None, _) \<Rightarrow> Inl AttributeError
         | (Inl e, _) \<Rightarrow> Inl e)
      else Inl AttributeError)"

section \<open>The operations on melody objects\<close>

text \<open>
  In the source a \<open>Melody\<close> is a mutable stream object that refers to mutable Note and
  Rest objects, and an operation receives references. To state what an operation does
  to the objects it was given, the operations are written here on an explicit store:
  \<open>objects\<close> holds the Note and Rest objects, \<open>streams\<close> the element lists of the Melody
  objects, and \<open>lim\<close> is the first address not yet in use. \<open>melody_value h r\<close> is the
  event sequence of the Melody at \<open>r\<close>, by value.
\<close>

type_synonym addr = nat

record heap =
  objects :: "addr \<Rightarrow> event"
  streams :: "addr \<Rightarrow> addr list"
  lim :: addr

definition melody_value :: "heap \<Rightarrow> addr \<Rightarrow> melody" where
  "melody_value h r = map (objects h) (streams h r)"

definition alloc_object :: "heap \<Rightarrow> event \<Rightarrow> addr \<times> heap" where
  "alloc_object h obj = (lim h, h\<lparr>objects := (objects h)(lim h := obj), lim := Suc (lim h)\<rparr>)"

definition alloc_stream :: "heap \<Rightarrow> addr list \<Rightarrow> addr \<times> heap" where
  "alloc_stream h elems = (lim h, h\<lparr>streams := (streams h)(lim h := elems), lim := Suc (lim h)\<rparr>)"

fun alloc_objects :: "heap \<Rightarrow> event list \<Rightarrow> addr list \<times> heap" where
  "alloc_objects h [] = ([], h)"
| "alloc_objects h (obj # objs) =
     (let (a, h1) = alloc_object h obj;
          (as, h2) = alloc_objects h1 objs
      in (a # as, h2))"

text \<open>
  \<open>Melody(objects)\<close> of new objects, \<open>copy.deepcopy\<close> of a list of notes and
  \<open>copy.deepcopy\<close> of a Melody: new objects with the same values.
\<close>

definition new_melody :: "heap \<Rightarrow> melody \<Rightarrow> addr \<times> heap" where
  "new_melody h objs = (let (elems, h1) = alloc_objects h objs in alloc_stream h1 elems)"

definition deepcopy_list :: "heap \<Rightarrow> addr list \<Rightarrow> addr list \<times> heap" where
  "deepcopy_list h as = alloc_objects h (map (objects h) as)"

definition deepcopy :: "heap \<Rightarrow> addr \<Rightarrow> addr \<times> heap" where
  "deepcopy h r = new_melody h (melody_value h r)"

text \<open>\<open>melody.notes\<close>, \<open>melody.length\<close>, \<open>note.pitch\<close> and \<open>note.pitch = p\<close>.\<close>

definition notes_h :: "heap \<Rightarrow> addr \<Rightarrow> addr list" where
  "notes_h h r = filter (\<lambda>a. is_Note (objects h a)) (streams h r)"

definition length_h :: "heap \<Rightarrow> addr \<Rightarrow> nat" where
  "length_h h r = length (notes_h h r)"

definition pitch_h :: "heap \<Rightarrow> addr \<Rightarrow> pitch" where
  "pitch_h h a = pitch (objects h a)"

definition set_pitch :: "heap \<Rightarrow> addr \<Rightarrow> pitch \<Rightarrow> heap" where
  "set_pitch h a p =
     h\<lparr>objects := (objects h)
          (a := (case objects h a of Note q d \<Rightarrow> Note p d | Rest d \<Rightarrow> Rest d))\<rparr>"

definition set_stream :: "heap \<Rightarrow> addr \<Rightarrow> addr list \<Rightarrow> heap" where
  "set_stream h r elems = h\<lparr>streams := (streams h)(r := elems)\<rparr>"

text \<open>\<open>for note, other in zip(notes, others): note.pitch = other.pitch\<close>\<close>

fun copy_pitches :: "heap \<Rightarrow> (addr \<times> addr) list \<Rightarrow> heap" where
  "copy_pitches h [] = h"
| "copy_pitches h ((note, other) # pairs) = copy_pitches (set_pitch h note (pitch_h h other)) pairs"

text \<open>\<open>for note, p in zip(notes, pitches): note.pitch = p\<close>\<close>

fun write_pitches :: "heap \<Rightarrow> (addr \<times> pitch) list \<Rightarrow> heap" where
  "write_pitches h [] = h"
| "write_pitches h ((note, p) # pairs) = write_pitches (set_pitch h note p) pairs"

subsection \<open>ChangePitch\<close>

fun change_each_h :: "heap \<Rightarrow> addr list \<Rightarrow> pitch list \<Rightarrow> rng \<Rightarrow> error + (heap \<times> rng)" where
  "change_each_h h [] pitches g = Inr (h, g)"
| "change_each_h h (note # notes_to_change) pitches g =
     (case choice pitches g of
        Inl e \<Rightarrow> Inl e
      | Inr (random_pitch, g') \<Rightarrow>
          change_each_h (set_pitch h note random_pitch) notes_to_change pitches g')"

definition ChangePitch_h ::
  "heap \<Rightarrow> addr \<Rightarrow> AmountMode \<Rightarrow> int option \<Rightarrow> pitch list option \<Rightarrow> rng
     \<Rightarrow> error + (addr \<times> heap \<times> rng)" where
  "ChangePitch_h h melody0 amount_mode amount0 pitches0 g =
     (let (melody, h1) = deepcopy h melody0;
          own = map (pitch_h h1) (notes_h h1 melody);
          pitches1 = (case pitches0 of None \<Rightarrow> own | Some ps \<Rightarrow> if ps = [] then own else ps);
          pitches = remdups pitches1
      in case (case amount_mode of
                 AmountMode.Minimum \<Rightarrow> Inr (Some 1, g)
               | AmountMode.Random \<Rightarrow>
                   (case randint 1 (int (length_h h1 melody)) g of
                      Inl e \<Rightarrow> Inl e
                    | Inr (r, g1) \<Rightarrow> Inr (Some r, g1))
               | AmountMode.Maximum \<Rightarrow> Inr (Some (int (length_h h1 melody)), g)
               | AmountMode.Fixed \<Rightarrow> Inr (amount0, g))
         of Inl e \<Rightarrow> Inl e
          | Inr (amount, g1) \<Rightarrow>
              if amount_mode = AmountMode.Fixed \<and> (amount = None \<or> amount = Some 0)
                then Inl (Exception ''Invalid amount'')
              else if amount_mode = AmountMode.Fixed \<and> the amount > int (length_h h1 melody)
                then Inl (Exception ''Invalid amount'')
              else
                (case choices (notes_h h1 melody) (the amount) g1 of
                   Inl e \<Rightarrow> Inl e
                 | Inr (notes_to_change, g2) \<Rightarrow>
                     (case change_each_h h1 notes_to_change pitches g2 of
                        Inl e \<Rightarrow> Inl e
                      | Inr (h2, g3) \<Rightarrow> Inr (melody, h2, g3))))"

subsection \<open>SwapPitch\<close>

text \<open>
  \<open>for note_1, note_2 in more_itertools.batched(notes_to_change, 2)\<close>: the pitches of
  each pair are exchanged; a last batch of one note cannot be unpacked.
\<close>

fun swap_batched :: "heap \<Rightarrow> addr list \<Rightarrow> error + heap" where
  "swap_batched h [] = Inr h"
| "swap_batched h [note_1] = Inl ValueError"
| "swap_batched h (note_1 # note_2 # notes_to_change) =
     swap_batched
       (set_pitch (set_pitch h note_1 (pitch_h h note_2)) note_2 (pitch_h h note_1))
       notes_to_change"

definition SwapPitch_h ::
  "heap \<Rightarrow> addr \<Rightarrow> AmountMode \<Rightarrow> int option \<Rightarrow> rng \<Rightarrow> error + (addr \<times> heap \<times> rng)" where
  "SwapPitch_h h melody0 amount_mode amount0 g =
     (let (melody, h1) = deepcopy h melody0;
          min_amount = 1;
          max_amount = int (length_h h1 melody) div 2
      in case randint min_amount max_amount g of
           Inl e \<Rightarrow> Inl e
         | Inr (random_amount, g1) \<Rightarrow>
             (let amount = (case amount_mode of
                              AmountMode.Minimum \<Rightarrow> Some min_amount
                            | AmountMode.Maximum \<Rightarrow> Some max_amount
                            | AmountMode.Random \<Rightarrow> Some random_amount
                            | AmountMode.Fixed \<Rightarrow> amount0)
              in if length_h h1 melody < 2 then Inl (Exception ''melody.length < 2'')
                 else (case amount of
                         None \<Rightarrow> Inl (Exception ''Invalid amount'')
                       | Some a \<Rightarrow>
                           if a = 0 then Inl (Exception ''Invalid amount'')
                           else
                             (case sample (notes_h h1 melody) (a * 2) g1 of
                                Inl e \<Rightarrow> Inl e
                              | Inr (sampled, g2) \<Rightarrow>
                                  (let (notes_to_change, g3) = shuffle sampled g2
                                   in case swap_batched h1 notes_to_change of
                                        Inl e \<Rightarrow> Inl e
                                      | Inr h2 \<Rightarrow> Inr (melody, h2, g3))))))"

subsection \<open>ShiftPitch, ShufflePitch, RemapPitch, RevertPitch\<close>

definition ShiftPitch_h ::
  "heap \<Rightarrow> addr \<Rightarrow> AmountMode \<Rightarrow> int option \<Rightarrow> rng \<Rightarrow> error + (addr \<times> heap \<times> rng)" where
  "ShiftPitch_h h melody0 amount_mode amount0 g =
     (let (melody, h1) = deepcopy h melody0;
          min_amount = 1;
          max_amount = int (length_h h1 melody) - 1
      in case randint min_amount max_amount g of
           Inl e \<Rightarrow> Inl e
         | Inr (random_amount, g1) \<Rightarrow>
             (let amount = (case amount_mode of
                              AmountMode.Minimum \<Rightarrow> Some min_amount
                            | AmountMode.Maximum \<Rightarrow> Some max_amount
                            | AmountMode.Random \<Rightarrow> Some random_amount
                            | AmountMode.Fixed \<Rightarrow> amount0)
              in if length_h h1 melody < 2 then Inr (melody, h1, g1)
                 else (case amount of
                         None \<Rightarrow> Inl (Exception ''Invalid amount'')
                       | Some a \<Rightarrow>
                           if a = 0 then Inl (Exception ''Invalid amount'')
                           else
                             (let (copied, h2) = deepcopy_list h1 (notes_h h1 melody);
                                  shifted_notes = slice_from copied a @ slice_to copied a
                              in Inr (melody,
                                      copy_pitches h2 (zip (notes_h h2 melody) shifted_notes),
                                      g1)))))"

definition ShufflePitch_h ::
  "heap \<Rightarrow> addr \<Rightarrow> AmountMode \<Rightarrow> int option \<Rightarrow> rng \<Rightarrow> error + (addr \<times> heap \<times> rng)" where
  "ShufflePitch_h h melody0 amount_mode amount0 g =
     (let (melody, h1) = deepcopy h melody0;
          min_amount = 2;
          max_amount = int (length_h h1 melody)
      in case randint min_amount max_amount g of
           Inl e \<Rightarrow> Inl e
         | Inr (random_amount, g1) \<Rightarrow>
             (let amount = (case amount_mode of
                              AmountMode.Minimum \<Rightarrow> Some min_amount
                            | AmountMode.Maximum \<Rightarrow> Some max_amount
                            | AmountMode.Random \<Rightarrow> Some random_amount
                            | AmountMode.Fixed \<Rightarrow> amount0)
              in if length_h h1 melody < 2 then Inr (melody, h1, g1)
                 else (case amount of
                         None \<Rightarrow> Inl (Exception ''Invalid amount'')
                       | Some a \<Rightarrow>
                           if a = 0 then Inl (Exception ''Invalid amount'')
                           else if a > int (length_h h1 melody)
                             then Inl (Exception ''amount > melody.length'')
                           else
                             (case sample [0 ..< length_h h1 melody] a g1 of
                                Inl e \<Rightarrow> Inl e
                              | Inr (note_indexes, g2) \<Rightarrow>
                                  (let (shuffled_indexes, g3) = shuffle note_indexes g2;
                                       shuffled_pitches =
                                         map (\<lambda>si. pitch_h h1 (notes_h h1 melody ! si))
                                           shuffled_indexes
                                   in Inr (melody,
                                           write_pitches h1
                                             (zip (map (\<lambda>i. notes_h h1 melody ! i) note_indexes)
                                                  shuffled_pitches),
                                           g3))))))"

text \<open>\<open>for note in notes_to_change: note.pitch = pitches_mapping[note.pitch]\<close>\<close>

fun remap_each :: "heap \<Rightarrow> addr list \<Rightarrow> (pitch \<rightharpoonup> pitch) \<Rightarrow> error + heap" where
  "remap_each h [] pitches_mapping = Inr h"
| "remap_each h (note # notes_to_change) pitches_mapping =
     (case pitches_mapping (pitch_h h note) of
        None \<Rightarrow> Inl KeyError
      | Some p \<Rightarrow> remap_each (set_pitch h note p) notes_to_change pitches_mapping)"

definition RemapPitch_h ::
  "heap \<Rightarrow> addr \<Rightarrow> AmountMode \<Rightarrow> int option \<Rightarrow> rng \<Rightarrow> error + (addr \<times> heap \<times> rng)" where
  "RemapPitch_h h melody0 amount_mode amount0 g =
     (let (melody, h1) = deepcopy h melody0;
          min_amount = 2;
          max_amount = int (length_h h1 melody)
      in case randint min_amount max_amount g of
           Inl e \<Rightarrow> Inl e
         | Inr (random_amount, g1) \<Rightarrow>
             (let amount = (case amount_mode of
                              AmountMode.Minimum \<Rightarrow> Some min_amount
                            | AmountMode.Maximum \<Rightarrow> Some max_amount
                            | AmountMode.Random \<Rightarrow> Some random_amount
                            | AmountMode.Fixed \<Rightarrow> amount0)
              in if length_h h1 melody < 2 then Inr (melody, h1, g1)
                 else (case amount of
                         None \<Rightarrow> Inl (Exception ''Invalid amount'')
                       | Some a \<Rightarrow>
                           if a = 0 then Inl (Exception ''Invalid amount'')
                           else if a > int (length_h h1 melody)
                             then Inl (Exception ''amount > melody.length'')
                           else
                             (case sample (notes_h h1 melody) a g1 of
                                Inl e \<Rightarrow> Inl e
                              | Inr (notes_to_change, g2) \<Rightarrow>
                                  (let pitches = remdups (map (pitch_h h1) notes_to_change);
                                       (shuffled_pitches, g3) = shuffle pitches g2;
                                       pitches_mapping = map_of (zip pitches shuffled_pitches)
                                   in case remap_each h1 notes_to_change pitches_mapping of
                                        Inl e \<Rightarrow> Inl e
                                      | Inr h2 \<Rightarrow> Inr (melody, h2, g3))))))"

definition RevertPitch_h :: "heap \<Rightarrow> addr \<Rightarrow> addr \<times> heap" where
  "RevertPitch_h h melody0 =
     (let (melody, h1) = deepcopy h melody0
      in if length_h h1 melody < 2 then (melody, h1)
         else (let (melody_notes', h2) = deepcopy_list h1 (notes_h h1 melody);
                   reversed_notes = rev melody_notes'
               in (melody, copy_pitches h2 (zip (notes_h h2 melody) reversed_notes))))"

subsection \<open>ChangeRhythm\<close>

text \<open>
  \<open>for idx, note in enumerate(another_melody.notes): note.pitch = melody.notes[idx].pitch\<close>,
  with IndexError for an index beyond \<open>melody.notes\<close>. The melody that GenerateMelody
  returns consists of new objects. \<open>melody.duration.quarterLength\<close> is the total duration.
\<close>

fun take_pitches :: "heap \<Rightarrow> addr list \<Rightarrow> addr list \<Rightarrow> error + heap" where
  "take_pitches h [] originals = Inr h"
| "take_pitches h (note # notes') [] = Inl IndexError"
| "take_pitches h (note # notes') (original # originals) =
     take_pitches (set_pitch h note (pitch_h h original)) notes' originals"

definition ChangeRhythm_h ::
  "heap \<Rightarrow> addr \<Rightarrow> rat option \<Rightarrow> rat option \<Rightarrow> DurationMode \<Rightarrow> rat option \<Rightarrow> rng
     \<Rightarrow> (error + (addr \<times> heap \<times> rng)) option" where
  "ChangeRhythm_h h melody0 duration0 grid_size0 duration_mode note_duration g =
     (let (melody, h1) = deepcopy h melody0;
          duration = (case duration0 of
                        None \<Rightarrow> total_duration (melody_value h1 melody)
                      | Some d \<Rightarrow> if d = 0 then total_duration (melody_value h1 melody) else d)
      in case (case grid_size0 of
                 None \<Rightarrow> melody_grid_size (melody_value h1 melody)
               | Some gs \<Rightarrow> if gs = 0 then melody_grid_size (melody_value h1 melody) else Inr gs)
         of Inl e \<Rightarrow> Some (Inl e)
          | Inr grid_size \<Rightarrow>
              (case GenerateMelody [Pitch ''C0''] (int (length_h h1 melody)) duration grid_size
                      duration_mode note_duration False False g of
                 None \<Rightarrow> None
               | Some (Inl e) \<Rightarrow> Some (Inl e)
               | Some (Inr (generated, g1)) \<Rightarrow>
                   (let (another_melody, h2) = new_melody h1 generated
                    in case take_pitches h2 (notes_h h2 another_melody) (notes_h h2 melody) of
                         Inl e \<Rightarrow> Some (Inl e)
                       | Inr h3 \<Rightarrow> Some (Inr (another_melody, h3, g1)))))"

subsection \<open>ConcatMelodies, SubstitutePitch, SubstituteRhythm\<close>

text \<open>
  \<open>Melody.__add__\<close>: both operands are copied, and the elements of the copy of
  \<open>other\<close> are appended to the copy of \<open>self\<close>. \<open>functools.reduce\<close> on one melody returns
  that melody itself.
\<close>

definition melody_add_h :: "heap \<Rightarrow> addr \<Rightarrow> addr \<Rightarrow> addr \<times> heap" where
  "melody_add_h h self other0 =
     (let (other, h1) = deepcopy h other0;
          (melody, h2) = deepcopy h1 self
      in (melody, set_stream h2 melody (streams h2 melody @ streams h2 other)))"

fun reduce_add :: "heap \<Rightarrow> addr \<Rightarrow> addr list \<Rightarrow> addr \<times> heap" where
  "reduce_add h x [] = (x, h)"
| "reduce_add h x (y # ys) = (let (z, h1) = melody_add_h h x y in reduce_add h1 z ys)"

definition truthy_h :: "heap \<Rightarrow> addr option \<Rightarrow> bool" where
  "truthy_h h m = (case m of None \<Rightarrow> False | Some r \<Rightarrow> streams h r \<noteq> [])"

definition ConcatMelodies_h ::
  "heap \<Rightarrow> addr option \<Rightarrow> addr option \<Rightarrow> addr option \<Rightarrow> addr option \<Rightarrow> addr \<times> heap" where
  "ConcatMelodies_h h melody_1 melody_2 melody_3 melody_4 =
     (let melodies = map the (filter (truthy_h h) [melody_1, melody_2, melody_3, melody_4])
      in case melodies of
           [] \<Rightarrow> alloc_stream h []
         | m # ms \<Rightarrow> reduce_add h m ms)"

text \<open>
  \<open>Melody.crop_length(limit)\<close>: every Rest is kept, and the Notes up to the one that
  makes \<open>limit\<close> Notes, where the walk ends; a limit that is not positive empties the
  melody.
\<close>

fun crop_walk :: "(addr \<Rightarrow> bool) \<Rightarrow> int \<Rightarrow> int \<Rightarrow> addr list \<Rightarrow> addr list" where
  "crop_walk note limit notes_count [] = []"
| "crop_walk note limit notes_count (obj # objs) =
     (if note obj
      then (if notes_count + 1 = limit then [obj]
            else obj # crop_walk note limit (notes_count + 1) objs)
      else obj # crop_walk note limit notes_count objs)"

definition crop_length_h :: "heap \<Rightarrow> addr \<Rightarrow> int \<Rightarrow> heap" where
  "crop_length_h h self limit =
     (if limit \<le> 0 then set_stream h self []
      else set_stream h self (crop_walk (\<lambda>a. is_Note (objects h a)) limit 0 (streams h self)))"

definition SubstitutePitch_h :: "heap \<Rightarrow> addr \<Rightarrow> addr \<Rightarrow> bool \<Rightarrow> addr \<times> heap" where
  "SubstitutePitch_h h rhythm0 sequence0 crop_rhythm =
     (let (rhythm, h1) = deepcopy h rhythm0;
          (sequence, h2) = deepcopy h1 sequence0;
          h3 = (if crop_rhythm \<and> length_h h2 rhythm > length_h h2 sequence
                then crop_length_h h2 rhythm (int (length_h h2 sequence)) else h2)
      in (rhythm, copy_pitches h3 (zip (notes_h h3 rhythm) (notes_h h3 sequence))))"

definition SubstituteRhythm_h :: "heap \<Rightarrow> addr \<Rightarrow> addr \<Rightarrow> addr \<times> heap" where
  "SubstituteRhythm_h h sequence0 rhythm0 =
     (let (rhythm, h1) = deepcopy h rhythm0;
          (sequence, h2) = deepcopy h1 sequence0
      in SubstitutePitch_h h2 rhythm sequence True)"

text \<open>
  A reference to a Melody of the store: the Melody and its elements lie below \<open>lim\<close>.
\<close>

definition melody_ref :: "heap \<Rightarrow> addr \<Rightarrow> bool" where
  "melody_ref h r = (r < lim h \<and> (\<forall>a \<in> set (streams h r). a < lim h))"

section \<open>Auxiliary notions of the proofs\<close>

text \<open>What joining establishes: a Rest directly followed by a Rest is a null Rest.\<close>

fun joined :: "melody \<Rightarrow> bool" where
  "joined (a # b # m) = ((is_Rest a \<and> is_Rest b \<longrightarrow> null_rest a) \<and> joined (b # m))"
| "joined m = True"


text \<open>Every event of the melody lasts a whole number of grid steps.\<close>

definition on_grid :: "rat \<Rightarrow> melody \<Rightarrow> bool" where
  "on_grid grid_size m = (\<forall>obj \<in> set m. \<exists>k::int. quarterLength obj = of_int k * grid_size)"


text \<open>
  Between two stores, nothing below address \<open>n\<close> has changed; and a Melody that was made
  at or above \<open>n\<close>, with elements made at or above \<open>n\<close>.
\<close>

definition unchanged_below :: "addr \<Rightarrow> heap \<Rightarrow> heap \<Rightarrow> bool" where
  "unchanged_below n h h' =
     (lim h \<le> lim h' \<and> (\<forall>a. a < n \<longrightarrow> objects h' a = objects h a \<and> streams h' a = streams h a))"

definition owned :: "addr \<Rightarrow> heap \<Rightarrow> addr \<Rightarrow> bool" where
  "owned n h r = (n \<le> r \<and> r < lim h \<and> (\<forall>a \<in> set (streams h r). n \<le> a \<and> a < lim h))"

text \<open>
  A store with one Melody, at address 4: the Notes A4, B4 and C4 and a Rest, at the
  addresses 0 to 3.
\<close>

definition example_heap :: heap where
  "example_heap =
     \<lparr>objects = (\<lambda>a. if a = 0 then Note (Pitch ''A4'') 1
                      else if a = 1 then Rest 1
                      else if a = 2 then Note (Pitch ''B4'') 2
                      else Note (Pitch ''C4'') 3),
      streams = (\<lambda>r. if r = 4 then [0, 1, 2, 3] else []),
      lim = 5\<rparr>"

section \<open>Verification: Melody.normalize\<close>

lemma notes_drop_null_rests: "melody_notes (drop_null_rests m) = melody_notes m"
  unfolding melody_notes_def drop_null_rests_def null_rest_def
  by (induction m) auto

lemma notes_join_consecutive_rests: "melody_notes (join_consecutive_rests m) = melody_notes m"
  unfolding melody_notes_def
  by (induction m rule: join_consecutive_rests.induct) auto

lemma total_drop_null_rests: "total_duration (drop_null_rests m) = total_duration m"
  unfolding total_duration_def drop_null_rests_def null_rest_def
  by (induction m) auto

lemma total_join_consecutive_rests: "total_duration (join_consecutive_rests m) = total_duration m"
  unfolding total_duration_def
  by (induction m rule: join_consecutive_rests.induct) auto

lemma joined_join_consecutive_rests: "joined (join_consecutive_rests m)"
proof (induction m rule: join_consecutive_rests.induct)
  case (1 obj_1 obj_2 objs)
  show ?case
  proof (cases "is_Rest obj_1 \<and> is_Rest obj_2")
    case True
    with 1 show ?thesis
      by (cases "join_consecutive_rests (Rest (quarterLength obj_2 + quarterLength obj_1) # objs)")
         (auto simp: null_rest_def)
  next
    case False
    with 1 show ?thesis
      by (cases objs) (auto simp: null_rest_def)
  qed
qed simp_all

lemma joined_tl: "joined (a # m) \<Longrightarrow> joined m"
  by (cases m) auto

lemma no_consecutive_after_drop: "joined m \<Longrightarrow> \<not> consecutive_rests (drop_null_rests m)"
proof (induction m)
  case Nil
  then show ?case by (simp add: drop_null_rests_def)
next
  case (Cons a m)
  have IH: "\<not> consecutive_rests (drop_null_rests m)"
    using Cons joined_tl by blast
  show ?case
  proof (cases "null_rest a")
    case True
    then show ?thesis using IH by (simp add: drop_null_rests_def)
  next
    case False
    show ?thesis
    proof (cases m)
      case Nil
      then show ?thesis by (simp add: drop_null_rests_def)
    next
      case (Cons b m')
      show ?thesis
      proof (cases "is_Rest a \<and> is_Rest b")
        case True
        then show ?thesis using Cons.prems Cons False by simp
      next
        case F2: False
        have "\<not> null_rest b \<or> \<not> is_Rest a" using F2 by (auto simp: null_rest_def)
        then show ?thesis
        proof
          assume "\<not> null_rest b"
          then show ?thesis using IH F2 False Cons by (simp add: drop_null_rests_def)
        next
          assume nr: "\<not> is_Rest a"
          have "drop_null_rests (a # m) = a # drop_null_rests m"
            using False by (simp add: drop_null_rests_def)
          then show ?thesis using IH nr by (cases "drop_null_rests m") auto
        qed
      qed
    qed
  qed
qed

lemma join_id: "\<not> consecutive_rests m \<Longrightarrow> join_consecutive_rests m = m"
  by (induction m rule: join_consecutive_rests.induct) auto

lemma drop_id: "\<forall>obj \<in> set m. \<not> null_rest obj \<Longrightarrow> drop_null_rests m = m"
  by (simp add: drop_null_rests_def)

lemma no_null_normalize_melody: "obj \<in> set (normalize_melody m) \<Longrightarrow> \<not> null_rest obj"
  by (simp add: normalize_melody_def drop_null_rests_def)

lemma no_consecutive_normalize_melody: "\<not> consecutive_rests (normalize_melody m)"
  unfolding normalize_melody_def
  by (rule no_consecutive_after_drop) (rule joined_join_consecutive_rests)

lemma notes_normalize_melody: "melody_notes (normalize_melody m) = melody_notes m"
  by (simp add: normalize_melody_def notes_drop_null_rests notes_join_consecutive_rests)

lemma total_normalize_melody: "total_duration (normalize_melody m) = total_duration m"
  by (simp add: normalize_melody_def total_drop_null_rests total_join_consecutive_rests)

lemma normalize_fixed:
  assumes "\<forall>obj \<in> set m. \<not> null_rest obj" and "\<not> consecutive_rests m"
  shows "normalize_melody m = m"
  using assms by (simp add: normalize_melody_def drop_id join_id)

text \<open>
  Claim C6. For every melody, normalizing an already normalized melody changes nothing;
  a normalized melody has no Rest of duration 0 and no two Rests next to each other; and
  normalize keeps the Note events in their order and the total duration.
\<close>

theorem normalize_idempotent_clean:
  "normalize_melody (normalize_melody m) = normalize_melody m
   \<and> (\<forall>obj \<in> set (normalize_melody m). \<not> (is_Rest obj \<and> quarterLength obj = 0))
   \<and> \<not> consecutive_rests (normalize_melody m)
   \<and> melody_notes (normalize_melody m) = melody_notes m
   \<and> total_duration (normalize_melody m) = total_duration m"
proof -
  have nn: "\<forall>obj \<in> set (normalize_melody m). \<not> null_rest obj"
    using no_null_normalize_melody by blast
  have "normalize_melody (normalize_melody m) = normalize_melody m"
    using nn no_consecutive_normalize_melody by (rule normalize_fixed)
  moreover have "melody_notes (normalize_melody m) = melody_notes m"
    by (simp add: normalize_melody_def notes_drop_null_rests notes_join_consecutive_rests)
  moreover have "total_duration (normalize_melody m) = total_duration m"
    by (simp add: normalize_melody_def total_drop_null_rests total_join_consecutive_rests)
  ultimately show ?thesis
    using nn no_consecutive_normalize_melody by (simp add: null_rest_def)
qed

theorem normalize_idempotent_clean_witness:
  "normalize_melody [Rest 1, Rest 1, Note (Pitch ''C4'') 1, Rest 0, Rest 2, Note (Pitch ''D4'') 2, Rest 1]
     = [Rest 2, Note (Pitch ''C4'') 1, Rest 2, Note (Pitch ''D4'') 2, Rest 1]
   \<and> normalize_melody [Rest 2, Note (Pitch ''C4'') 1, Rest 2, Note (Pitch ''D4'') 2, Rest 1]
     = [Rest 2, Note (Pitch ''C4'') 1, Rest 2, Note (Pitch ''D4'') 2, Rest 1]"
proof -
  let ?m = "[Rest 1, Rest 1, Note (Pitch ''C4'') 1, Rest 0, Rest 2, Note (Pitch ''D4'') 2, Rest 1]"
  have n: "normalize_melody ?m
             = [Rest 2, Note (Pitch ''C4'') 1, Rest 2, Note (Pitch ''D4'') 2, Rest 1]"
    by (simp add: normalize_melody_def drop_null_rests_def null_rest_def)
  from normalize_idempotent_clean [of ?m]
  have "normalize_melody (normalize_melody ?m) = normalize_melody ?m" by blast
  with n show ?thesis by simp
qed

section \<open>Verification: the transforming operations\<close>

lemma assign_self: "assign_pitches m (map pitch (melody_notes m)) = m"
proof (induction m)
  case Nil
  show ?case by (simp add: melody_notes_def)
next
  case (Cons a m)
  then show ?case by (cases a) (simp_all add: melody_notes_def)
qed

lemma notes_assign: "length ps = melody_length m \<Longrightarrow> map pitch (melody_notes (assign_pitches m ps)) = ps"
  by (induction m ps rule: assign_pitches.induct) (auto simp: melody_notes_def melody_length_def)

lemma assign_assign:
  "length ps = melody_length m \<Longrightarrow> melody_length m \<le> length qs
   \<Longrightarrow> assign_pitches (assign_pitches m ps) qs = assign_pitches m qs"
proof (induction m ps arbitrary: qs rule: assign_pitches.induct)
  case (4 p d objs q qs')
  then show ?case by (cases qs) (simp_all add: melody_notes_def melody_length_def)
qed (simp_all add: melody_notes_def melody_length_def)

lemma length_assign: "melody_length (assign_pitches m ps) = melody_length m"
  by (induction m ps rule: assign_pitches.induct) (auto simp: melody_notes_def melody_length_def)

text \<open>
  Claim C10. RevertPitch takes no random number, and applying it twice gives the melody
  back: the same events with the same pitches and durations in the same order, for a
  melody of any length.
\<close>

theorem RevertPitch_involution: "RevertPitch (RevertPitch m) = m"
proof (cases "melody_length m < 2")
  case True
  then show ?thesis by (simp add: RevertPitch_def)
next
  case False
  let ?ps = "map pitch (rev (melody_notes m))"
  have len: "length ?ps = melody_length m" by (simp add: melody_length_def)
  have "RevertPitch m = assign_pitches m ?ps" using False by (simp add: RevertPitch_def)
  moreover have "melody_length (assign_pitches m ?ps) = melody_length m" by (rule length_assign)
  moreover have "map pitch (rev (melody_notes (assign_pitches m ?ps))) = map pitch (melody_notes m)"
  proof -
    have "map pitch (rev (melody_notes (assign_pitches m ?ps)))
            = rev (map pitch (melody_notes (assign_pitches m ?ps)))"
      by (simp only: rev_map)
    also have "\<dots> = rev ?ps" using notes_assign [OF len] by simp
    also have "\<dots> = map pitch (melody_notes m)" by (simp add: rev_map)
    finally show ?thesis .
  qed
  ultimately show ?thesis
    using False assign_assign [OF len, of "map pitch (melody_notes m)"] assign_self
    by (simp add: RevertPitch_def melody_length_def)
qed

lemma randint_empty: "b < a \<Longrightarrow> randint a b g = Inl ValueError"
  by (simp add: randint_def)

lemma ShiftPitch_short: "melody_length m < 2 \<Longrightarrow> ShiftPitch m mode amount g = Inl ValueError"
  by (simp add: ShiftPitch_def randint_def)

lemma ShufflePitch_short: "melody_length m < 2 \<Longrightarrow> ShufflePitch m mode amount g = Inl ValueError"
  by (simp add: ShufflePitch_def randint_def)

text \<open>
  Claim C3, evaluated on a melody of one Note: \<open>random.randint\<close> is called on the
  empty range before the length of the melody is looked at, so ShiftPitch and
  ShufflePitch raise ValueError in every amount mode instead of returning the melody.
\<close>

theorem ShiftPitch_ShufflePitch_single_note_raise:
  "ShiftPitch [Note (Pitch ''C4'') 1] amount_mode amount g = Inl ValueError
   \<and> ShufflePitch [Note (Pitch ''C4'') 1] amount_mode amount g = Inl ValueError"
proof -
  have "melody_length [Note (Pitch ''C4'') 1] < 2"
    by (simp add: melody_length_def melody_notes_def)
  then show ?thesis
    using ShiftPitch_short ShufflePitch_short by blast
qed

text \<open>
  Claim C8, evaluated on a melody of two Notes in mode Maximum: \<open>random.choices\<close>
  draws with replacement, here the first Note twice, and the second Note keeps its pitch.
\<close>

theorem ChangePitch_Maximum_repeated_note:
  "map_sum id fst
     (ChangePitch [Note (Pitch ''A4'') 1, Note (Pitch ''B4'') 1] AmountMode.Maximum None
        (Some [Pitch ''C4'']) (\<lambda>i. 0))
   = Inr [Note (Pitch ''C4'') 1, Note (Pitch ''B4'') 1]"
  by code_simp

section \<open>Verification: the random source\<close>

lemma randbelow_less: "0 < n \<Longrightarrow> randbelow n g = (j, g') \<Longrightarrow> j < n"
  by (auto simp: randbelow_def)

lemma choice_member: "choice seq g = Inr (x, g') \<Longrightarrow> x \<in> set seq"
  by (auto simp: choice_def randbelow_def split: if_splits)

lemma choice_succeeds: "seq \<noteq> [] \<Longrightarrow> \<exists>x g'. choice seq g = Inr (x, g')"
  by (simp add: choice_def randbelow_def)

lemma mset_shuffle_from:
  "i < length x \<Longrightarrow> shuffle_from i x g = (y, g') \<Longrightarrow> mset y = mset x"
proof (induction i arbitrary: x g)
  case 0
  then show ?case by simp
next
  case (Suc i)
  obtain j g1 where r: "randbelow (Suc i + 1) g = (j, g1)" by (cases "randbelow (Suc i + 1) g")
  have "j < Suc i + 1" using r by (auto simp: randbelow_def)
  then have j: "j < length x" using Suc.prems(1) by simp
  let ?x' = "x[Suc i := x ! j, j := x ! Suc i]"
  have "shuffle_from i ?x' g1 = (y, g')" using Suc.prems(2) r by simp
  moreover have "i < length ?x'" using Suc.prems(1) by simp
  ultimately have "mset y = mset ?x'" using Suc.IH by blast
  also have "\<dots> = mset x" using j Suc.prems(1) by (simp add: mset_swap)
  finally show ?case .
qed

lemma mset_shuffle: "shuffle x g = (y, g') \<Longrightarrow> mset y = mset x"
proof (cases x)
  case Nil
  then show "shuffle x g = (y, g') \<Longrightarrow> mset y = mset x" by (simp add: shuffle_def)
next
  case (Cons a x')
  then show "shuffle x g = (y, g') \<Longrightarrow> mset y = mset x"
    using mset_shuffle_from [of "length x - 1" x g y g'] by (simp add: shuffle_def)
qed

lemma mset_take_out:
  assumes "j < length pool"
  shows "add_mset (pool ! j) (mset (butlast (pool[j := last pool]))) = mset pool"
proof -
  from assms have ne: "pool \<noteq> []" by auto
  then obtain xs z where pool: "pool = xs @ [z]" by (metis append_butlast_last_id)
  show ?thesis
  proof (cases "j < length xs")
    case True
    then have "butlast (pool[j := last pool]) = xs[j := z]"
      by (simp add: pool list_update_append)
    moreover have "pool ! j = xs ! j" using True by (simp add: pool nth_append)
    moreover have "add_mset (xs ! j) (mset (xs[j := z])) = add_mset z (mset xs)"
      using True by (simp add: mset_update)
    ultimately show ?thesis by (simp add: pool)
  next
    case False
    then have "j = length xs" using assms by (simp add: pool)
    then show ?thesis by (simp add: pool)
  qed
qed

lemma sample_pool_sub:
  "k \<le> length pool \<Longrightarrow> sample_pool pool k g = (result, g')
   \<Longrightarrow> mset result \<subseteq># mset pool \<and> length result = k"
proof (induction k arbitrary: pool g result g')
  case 0
  then show ?case by simp
next
  case (Suc k)
  obtain j g1 where r: "randbelow (length pool) g = (j, g1)" by (cases "randbelow (length pool) g")
  have "0 < length pool" using Suc.prems(1) by (cases pool) auto
  then have j: "j < length pool" using r by (rule randbelow_less)
  let ?pool' = "butlast (pool[j := last pool])"
  obtain rest g2 where s: "sample_pool ?pool' k g1 = (rest, g2)" by (cases "sample_pool ?pool' k g1")
  have res: "result = pool ! j # rest" using Suc.prems(2) r s by simp
  have "k \<le> length ?pool'" using Suc.prems(1) by simp
  then have IH: "mset rest \<subseteq># mset ?pool' \<and> length rest = k" using Suc.IH s by blast
  then have "add_mset (pool ! j) (mset rest) \<subseteq># add_mset (pool ! j) (mset ?pool')" by simp
  then show ?case using IH res mset_take_out [OF j] by simp
qed

lemma distinct_sub_mset: "mset xs \<subseteq># mset ys \<Longrightarrow> distinct ys \<Longrightarrow> distinct xs"
proof -
  assume sub: "mset xs \<subseteq># mset ys" and d: "distinct ys"
  have le: "count (mset xs) a \<le> 1" for a
  proof -
    have "count (mset xs) a \<le> count (mset ys) a"
      using sub by (rule mset_subset_eq_count)
    moreover have "count (mset ys) a \<le> 1"
      using d by (simp add: distinct_count_atmost_1)
    ultimately show ?thesis by linarith
  qed
  show "distinct xs"
    unfolding distinct_count_atmost_1
  proof (intro allI)
    fix a
    show "count (mset xs) a = (if a \<in> set xs then 1 else 0)"
    proof (cases "a \<in> set xs")
      case True
      then have "0 < count (mset xs) a" by simp
      with le [of a] have "count (mset xs) a = 1" by linarith
      with True show ?thesis by simp
    next
      case False
      then show ?thesis by (simp add: count_mset_0_iff)
    qed
  qed
qed

lemma sample_distinct:
  assumes "sample population k g = Inr (result, g')" and "distinct population"
  shows "distinct result \<and> set result \<subseteq> set population \<and> int (length result) = k"
proof -
  from assms(1) have k: "0 \<le> k" "nat k \<le> length population"
    and sp: "sample_pool population (nat k) g = (result, g')"
    by (auto simp: sample_def split: if_splits)
  from sample_pool_sub [OF k(2) sp]
  have sub: "mset result \<subseteq># mset population" and len: "length result = nat k" by auto
  from sub assms(2) have "distinct result"
    by (rule distinct_sub_mset)
  moreover from sub have "set result \<subseteq> set population" by (metis set_mset_mono set_mset_mset)
  ultimately show ?thesis using len k by simp
qed

lemma choices_loop_length: "choices_loop population k g = (result, g') \<Longrightarrow> length result = k"
  by (induction k arbitrary: g result g') (auto split: prod.splits)

lemma choices_length: "choices population k g = Inr (result, g') \<Longrightarrow> length result = nat k"
  by (auto simp: choices_def choices_loop_length split: if_splits)

section \<open>Verification: GenerateMelody\<close>

lemma py_max_upto: "1 \<le> n \<Longrightarrow> py_max [1..n] = Inr n"
proof -
  assume n: "1 \<le> n"
  then have u: "[1..n] = 1 # [2..n]" by (simp add: upto_rec1)
  have "fold max [2..n] 1 = Max (set (1 # [2..n]))" by (simp only: Max.set_eq_fold)
  also have "\<dots> = Max (set [1..n])" by (simp only: u)
  also have "\<dots> = n" using n by (intro Max_eqI) auto
  finally show ?thesis by (simp add: py_max_def u)
qed

lemma split_gap_sorted:
  assumes "0 < grid_between"
  shows "\<exists>note_grid g'. split_gap duration_mode grid_between g
           = Inr ((note_grid, grid_between - note_grid), g')"
proof -
  have ne: "[1..grid_between] \<noteq> []" using assms by (simp add: upto_rec1)
  have mx: "py_max [1..grid_between] = Inr grid_between" using assms by (simp add: py_max_upto)
  show ?thesis
  proof (cases "duration_mode = DurationMode.Random")
    case True
    obtain x g' where "choice [1..grid_between] g = Inr (x, g')"
      using choice_succeeds [OF ne] by blast
    then show ?thesis using assms True mx by (simp add: split_gap_def)
  next
    case False
    then show ?thesis using assms mx by (simp add: split_gap_def)
  qed
qed

lemma on_grid_Nil: "on_grid gs []"
  by (simp add: on_grid_def)

lemma on_grid_Cons: "on_grid gs (a # m) \<longleftrightarrow> (\<exists>k::int. quarterLength a = of_int k * gs) \<and> on_grid gs m"
  by (simp add: on_grid_def)

lemma on_grid_append: "on_grid gs (m @ m') \<longleftrightarrow> on_grid gs m \<and> on_grid gs m'"
  by (auto simp: on_grid_def)

lemma fill_pairwise_sorted:
  "sorted_wrt (<) note_indices \<Longrightarrow> note_indices \<noteq> [] \<Longrightarrow>
   \<exists>objs g'. fill_pairwise duration_mode gs note_indices g = Inr (objs, g')
     \<and> melody_length objs = length note_indices - 1
     \<and> total_duration objs = of_int (last note_indices - hd note_indices) * gs
     \<and> on_grid gs objs"
proof (induction duration_mode gs note_indices g rule: fill_pairwise.induct)
  case (1 duration_mode gs note_idx next_note_idx note_indices g)
  have gap: "0 < next_note_idx - note_idx" using "1.prems" by simp
  obtain note_grid g1 where sg: "split_gap duration_mode (next_note_idx - note_idx) g
      = Inr ((note_grid, next_note_idx - note_idx - note_grid), g1)"
    using split_gap_sorted [OF gap] by blast
  have "sorted_wrt (<) (next_note_idx # note_indices)" using "1.prems" by simp
  then obtain objs g2 where
    f: "fill_pairwise duration_mode gs (next_note_idx # note_indices) g1 = Inr (objs, g2)"
    and l: "melody_length objs = length (next_note_idx # note_indices) - 1"
    and t: "total_duration objs = of_int (last (next_note_idx # note_indices) - next_note_idx) * gs"
    and o: "on_grid gs objs"
    using "1.IH" [OF sg refl refl] by auto
  let ?rest = "next_note_idx - note_idx - note_grid"
  let ?res = "Note default_pitch (of_int note_grid * gs)
                # (if ?rest \<noteq> 0 then [Rest (of_int ?rest * gs)] else []) @ objs"
  have r: "fill_pairwise duration_mode gs (note_idx # next_note_idx # note_indices) g = Inr (?res, g2)"
    using sg f by simp
  have "melody_length ?res = Suc (melody_length objs)"
    by (simp add: melody_length_def melody_notes_def)
  moreover have "total_duration ?res = of_int (next_note_idx - note_idx) * gs + total_duration objs"
    by (simp add: total_duration_def algebra_simps)
  moreover have "on_grid gs ?res"
  proof -
    have "\<exists>k::int. quarterLength (Note default_pitch (of_int note_grid * gs)) = of_int k * gs"
      by (rule exI [of _ note_grid]) simp
    moreover have "\<exists>k::int. quarterLength (Rest (of_int ?rest * gs)) = of_int k * gs"
      by (rule exI [of _ ?rest]) simp
    ultimately show ?thesis
      using o by (simp only: on_grid_Cons on_grid_append on_grid_Nil split: if_split) simp
  qed
  ultimately show ?case
    using r l t by (simp add: algebra_simps)
qed (simp_all add: melody_length_def melody_notes_def total_duration_def on_grid_Nil)

lemma py_int_of_int: "py_int (of_int n) = n"
  by (simp add: py_int_def)

lemma random_rhythm_correct:
  assumes gs: "grid_size \<noteq> 0"
    and N: "of_int (py_int (duration / grid_size)) = duration / grid_size"
    and L: "0 < length'" "length' \<le> py_int (duration / grid_size)"
  shows "\<exists>m g'. random_rhythm length' duration grid_size duration_mode g = Inr (m, g')
           \<and> int (melody_length m) = length'
           \<and> total_duration m = duration
           \<and> on_grid grid_size m"
proof -
  let ?N = "py_int (duration / grid_size)"
  let ?grid = "map int [0 ..< nat ?N]"
  have d: "distinct ?grid" by (simp add: distinct_map)
  have "\<not> (length' < 0 \<or> int (length ?grid) < length')" using L by simp
  then obtain sampled g1 where s: "sample ?grid length' g = Inr (sampled, g1)"
    by (cases "sample_pool ?grid (nat length') g") (simp add: sample_def)
  from sample_distinct [OF s d]
  have sd: "distinct sampled" and ss: "set sampled \<subseteq> set ?grid" and sl: "int (length sampled) = length'"
    by auto
  let ?idx = "sort sampled @ [?N]"
  have lt: "\<forall>x \<in> set (sort sampled). x < ?N" using ss by auto
  have "sorted_wrt (<) (sort sampled)" using sd by (simp add: strict_sorted_iff)
  then have sorted: "sorted_wrt (<) ?idx" using lt by (simp add: sorted_wrt_append)
  have "length (sort sampled) = length sampled" by simp
  then have ne: "sort sampled \<noteq> []" using sl L by (cases "sort sampled") auto
  then obtain first rest where fr: "sort sampled = first # rest" by (cases "sort sampled") auto
  obtain objs g2 where
    f: "fill_pairwise duration_mode grid_size ?idx g1 = Inr (objs, g2)"
    and l: "melody_length objs = length ?idx - 1"
    and t: "total_duration objs = of_int (last ?idx - hd ?idx) * grid_size"
    and o: "on_grid grid_size objs"
    using fill_pairwise_sorted [OF sorted, of duration_mode grid_size g1] by auto
  let ?m = "(if of_int first * grid_size \<noteq> 0 then [Rest (of_int first * grid_size)] else []) @ objs"
  have N0: "int (length [0 ..< nat ?N]) = ?N" using L by simp
  have r: "random_rhythm length' duration grid_size duration_mode g = Inr (?m, g2)"
    unfolding random_rhythm_def Let_def N0 s using f fr by simp
  have "melody_length ?m = melody_length objs"
    by (simp add: melody_length_def melody_notes_def)
  then have "int (melody_length ?m) = length'" using l sl by simp
  moreover have "total_duration ?m = of_int first * grid_size + total_duration objs"
    by (simp add: total_duration_def)
  then have "total_duration ?m = of_int ?N * grid_size"
    using t fr by (simp add: algebra_simps)
  then have "total_duration ?m = duration" using N gs by simp
  moreover have "on_grid grid_size ?m"
  proof -
    have "\<exists>k::int. quarterLength (Rest (of_int first * grid_size)) = of_int k * grid_size"
      by (rule exI [of _ first]) simp
    then show ?thesis
      using o by (simp only: on_grid_Cons on_grid_append on_grid_Nil split: if_split) simp
  qed
  ultimately show ?thesis using r by blast
qed

lemma total_duration_mset: "mset m = mset m' \<Longrightarrow> total_duration m = total_duration m'"
proof -
  assume "mset m = mset m'"
  then have "sum_mset (image_mset quarterLength (mset m)) = sum_mset (image_mset quarterLength (mset m'))"
    by simp
  then show ?thesis by (simp add: total_duration_def sum_mset_sum_list del: mset_map flip: mset_map)
qed

lemma melody_length_mset: "mset m = mset m' \<Longrightarrow> melody_length m = melody_length m'"
proof -
  assume "mset m = mset m'"
  then have "size (filter_mset is_Note (mset m)) = size (filter_mset is_Note (mset m'))" by simp
  then show ?thesis by (simp add: melody_length_def melody_notes_def del: mset_filter flip: mset_filter)
qed

lemma on_grid_mset: "mset m = mset m' \<Longrightarrow> on_grid gs m = on_grid gs m'"
  by (auto simp: on_grid_def dest: mset_eq_setD)

lemma on_grid_drop_null_rests: "on_grid gs m \<Longrightarrow> on_grid gs (drop_null_rests m)"
  by (simp add: on_grid_def drop_null_rests_def)

lemma on_grid_join_consecutive_rests: "on_grid gs m \<Longrightarrow> on_grid gs (join_consecutive_rests m)"
proof (induction m rule: join_consecutive_rests.induct)
  case (1 obj_1 obj_2 objs)
  show ?case
  proof (cases "is_Rest obj_1 \<and> is_Rest obj_2")
    case True
    from "1.prems" obtain k1 k2 :: int where
      k: "quarterLength obj_1 = of_int k1 * gs" "quarterLength obj_2 = of_int k2 * gs"
      by (auto simp: on_grid_Cons)
    have "\<exists>k::int. quarterLength (Rest (quarterLength obj_2 + quarterLength obj_1)) = of_int k * gs"
      by (rule exI [of _ "k2 + k1"]) (simp add: k algebra_simps)
    then have "on_grid gs (Rest (quarterLength obj_2 + quarterLength obj_1) # objs)"
      using "1.prems" by (simp only: on_grid_Cons)
    then have "on_grid gs (join_consecutive_rests (Rest (quarterLength obj_2 + quarterLength obj_1) # objs))"
      using "1.IH"(1) True by blast
    moreover have "\<exists>k::int. quarterLength (Rest 0) = of_int k * gs"
      by (rule exI [of _ 0]) simp
    ultimately show ?thesis using True by (simp add: on_grid_Cons)
  next
    case False
    then show ?thesis using "1.IH"(2) "1.prems" by (auto simp: on_grid_Cons)
  qed
qed simp_all

lemma on_grid_normalize: "on_grid gs m \<Longrightarrow> on_grid gs (normalize_melody m)"
  by (simp add: normalize_melody_def on_grid_drop_null_rests on_grid_join_consecutive_rests)

lemma fixed_rhythm_correct:
  assumes gs: "grid_size \<noteq> 0"
    and N: "of_int N = duration / grid_size"
    and k: "note_duration = of_int k * grid_size"
    and L: "0 < length'" "length' * k \<le> N"
    and f: "fixed_rhythm length' duration grid_size note_duration g = (m, g')"
  shows "int (melody_length m) = length' \<and> total_duration m = duration \<and> on_grid grid_size m"
proof -
  have pN: "py_int (duration / grid_size) = N"
    unfolding N [symmetric] by (rule py_int_of_int)
  have "of_int length' * note_duration / grid_size = of_int (length' * k)"
    using gs by (simp add: k)
  then have pk: "py_int (of_int length' * note_duration / grid_size) = length' * k"
    by (simp only: py_int_of_int)
  let ?objs = "replicate (nat length') (Note default_pitch note_duration)
                 @ replicate (nat (N - length' * k)) (Rest grid_size)"
  obtain shuffled g1 where sh: "shuffle ?objs g = (shuffled, g1)" by (cases "shuffle ?objs g")
  have m: "m = normalize_melody shuffled" using f sh by (simp add: fixed_rhythm_def pN pk)
  have ms: "mset shuffled = mset ?objs" using sh by (rule mset_shuffle)
  have "melody_length ?objs = nat length'"
    by (simp add: melody_length_def melody_notes_def)
  then have "melody_length m = nat length'"
    using melody_length_mset [OF ms] notes_normalize_melody [of shuffled]
    by (simp add: m melody_length_def)
  moreover have "total_duration ?objs = of_int length' * note_duration + of_int (N - length' * k) * grid_size"
    using L by (simp add: total_duration_def sum_list_replicate of_nat_nat)
  then have "total_duration ?objs = of_int N * grid_size"
    by (simp add: k algebra_simps)
  then have "total_duration m = duration"
    using total_duration_mset [OF ms] total_normalize_melody [of shuffled] N gs by (simp add: m)
  moreover have "on_grid grid_size ?objs"
  proof -
    have "\<exists>j::int. note_duration = of_int j * grid_size" using k by blast
    moreover have "\<exists>j::int. grid_size = of_int j * grid_size" by (rule exI [of _ 1]) simp
    ultimately show ?thesis by (auto simp: on_grid_def)
  qed
  then have "on_grid grid_size m"
    using on_grid_mset [OF ms] on_grid_normalize by (simp add: m)
  ultimately show ?thesis using L by simp
qed

lemma GenerateMelody_returns_cases:
  assumes "GenerateMelody pitches length' duration grid_size duration_mode note_duration alternate use_all g
             = Some (Inr (m, g'))"
    and "0 < length'"
  shows "\<exists>melody g1 chosen_pitches nd.
    grid_size \<noteq> 0
    \<and> of_int (py_int (duration / grid_size)) = duration / grid_size
    \<and> length' \<le> py_int (duration / grid_size)
    \<and> grid_size \<le> duration
    \<and> (duration_mode = DurationMode.Fixed \<longrightarrow>
         note_duration = Some nd \<and> nd * of_int length' \<le> duration \<and> grid_size \<le> nd
         \<and> of_int (py_int (nd / grid_size)) = nd / grid_size)
    \<and> (duration_mode = DurationMode.Minimum \<longrightarrow> nd = grid_size)
    \<and> (alternate \<longrightarrow> 2 \<le> length (remdups pitches))
    \<and> (use_all \<longrightarrow> int (length (remdups pitches)) \<le> length')
    \<and> ((duration_mode = DurationMode.Random \<or> duration_mode = DurationMode.Maximum)
           \<and> random_rhythm length' duration grid_size duration_mode g = Inr (melody, g1)
         \<or> (duration_mode = DurationMode.Minimum \<or> duration_mode = DurationMode.Fixed)
           \<and> fixed_rhythm length' duration grid_size nd g = (melody, g1))
    \<and> choose_pitches (remdups pitches) length' alternate use_all g1 = Some (Inr (chosen_pitches, g'))
    \<and> m = assign_pitches melody chosen_pitches"
proof -
  let ?nd = "if duration_mode = DurationMode.Minimum then grid_size else the note_duration"
  from assms have v:
    "grid_size \<noteq> 0"
    "of_int (py_int (duration / grid_size)) = duration / grid_size"
    "length' \<le> py_int (duration / grid_size)"
    "grid_size \<le> duration"
    "alternate \<longrightarrow> 2 \<le> length (remdups pitches)"
    "use_all \<longrightarrow> int (length (remdups pitches)) \<le> length'"
    unfolding GenerateMelody_def Let_def by (auto split: if_splits)
  from assms have f: "duration_mode = DurationMode.Fixed \<longrightarrow>
         note_duration = Some ?nd \<and> ?nd * of_int length' \<le> duration \<and> grid_size \<le> ?nd
         \<and> of_int (py_int (?nd / grid_size)) = ?nd / grid_size"
    unfolding GenerateMelody_def Let_def by (auto split: if_splits)
  from assms obtain melody g1 where
    r: "(if duration_mode = DurationMode.Random \<or> duration_mode = DurationMode.Maximum
               then random_rhythm length' duration grid_size duration_mode g
               else Inr (fixed_rhythm length' duration grid_size ?nd g)) = Inr (melody, g1)"
    and rest: "(case choose_pitches (remdups pitches) length' alternate use_all g1 of
                 None \<Rightarrow> None
               | Some (Inl e) \<Rightarrow> Some (Inl e)
               | Some (Inr (chosen_pitches, g2)) \<Rightarrow>
                   Some (Inr (assign_pitches melody chosen_pitches, g2))) = Some (Inr (m, g'))"
    unfolding GenerateMelody_def Let_def
    by (simp split: if_splits sum.splits prod.splits)
  from rest obtain chosen_pitches where
    c: "choose_pitches (remdups pitches) length' alternate use_all g1 = Some (Inr (chosen_pitches, g'))"
    and m: "m = assign_pitches melody chosen_pitches"
    by (auto split: option.splits sum.splits prod.splits)
  have "(duration_mode = DurationMode.Random \<or> duration_mode = DurationMode.Maximum)
           \<and> random_rhythm length' duration grid_size duration_mode g = Inr (melody, g1)
         \<or> (duration_mode = DurationMode.Minimum \<or> duration_mode = DurationMode.Fixed)
           \<and> fixed_rhythm length' duration grid_size ?nd g = (melody, g1)"
    using r by (cases duration_mode) (simp_all split: if_splits)
  then show ?thesis using v f c m by (intro exI [of _ melody] exI [of _ g1] exI [of _ chosen_pitches] exI [of _ ?nd]) simp
qed

lemma durations_assign_pitches: "map quarterLength (assign_pitches m ps) = map quarterLength m"
  by (induction m ps rule: assign_pitches.induct) simp_all

lemma total_duration_assign_pitches: "total_duration (assign_pitches m ps) = total_duration m"
  by (simp add: total_duration_def durations_assign_pitches)

lemma on_grid_durations: "on_grid gs m \<longleftrightarrow> (\<forall>d \<in> set (map quarterLength m). \<exists>k::int. d = of_int k * gs)"
  by (auto simp: on_grid_def)

lemma on_grid_assign_pitches: "on_grid gs (assign_pitches m ps) = on_grid gs m"
  by (simp only: on_grid_durations durations_assign_pitches)

lemma fixed_counts:
  assumes gs: "grid_size \<noteq> (0::rat)"
    and N: "of_int N = duration / grid_size"
    and L: "0 < L" "L \<le> N"
    and d: "grid_size \<le> duration"
    and nd: "note_duration * of_int L \<le> duration" "grid_size \<le> note_duration"
    and k: "of_int k = note_duration / grid_size"
  shows "L * k \<le> N"
proof (cases "0 < grid_size")
  case True
  have "of_int (L * k) * grid_size = note_duration * of_int L" using gs k by simp
  also have "\<dots> \<le> duration" by (rule nd(1))
  also have "\<dots> = of_int N * grid_size" using gs N by simp
  finally have "(of_int (L * k) :: rat) \<le> of_int N" using True by (simp only: mult_le_cancel_right_pos)
  then show ?thesis by (simp only: of_int_le_iff)
next
  case False
  then have neg: "grid_size < 0" using gs by simp
  have "duration / grid_size \<le> 1" using neg d by (simp add: divide_le_eq_1)
  then have "(of_int N :: rat) \<le> of_int 1" using N by simp
  then have "N \<le> 1" by (simp only: of_int_le_iff)
  then have L1: "L = 1" and N1: "N = 1" using L by auto
  have "note_duration / grid_size \<le> 1" using neg nd(2) by (simp add: divide_le_eq_1)
  then have "(of_int k :: rat) \<le> of_int 1" using k by simp
  then have "k \<le> 1" by (simp only: of_int_le_iff)
  then show ?thesis using L1 N1 by simp
qed

lemma GenerateMelody_rhythm:
  assumes "GenerateMelody pitches length' duration grid_size duration_mode note_duration alternate use_all g
             = Some (Inr (m, g'))"
    and "0 < length'"
  shows "int (melody_length m) = length' \<and> total_duration m = duration \<and> on_grid grid_size m"
proof -
  from GenerateMelody_returns_cases [OF assms] obtain melody g1 chosen_pitches nd where
    gs: "grid_size \<noteq> 0"
    and N: "of_int (py_int (duration / grid_size)) = duration / grid_size"
    and L: "length' \<le> py_int (duration / grid_size)"
    and d: "grid_size \<le> duration"
    and fixed: "duration_mode = DurationMode.Fixed \<longrightarrow>
         note_duration = Some nd \<and> nd * of_int length' \<le> duration \<and> grid_size \<le> nd
         \<and> of_int (py_int (nd / grid_size)) = nd / grid_size"
    and minimum: "duration_mode = DurationMode.Minimum \<longrightarrow> nd = grid_size"
    and r: "(duration_mode = DurationMode.Random \<or> duration_mode = DurationMode.Maximum)
           \<and> random_rhythm length' duration grid_size duration_mode g = Inr (melody, g1)
         \<or> (duration_mode = DurationMode.Minimum \<or> duration_mode = DurationMode.Fixed)
           \<and> fixed_rhythm length' duration grid_size nd g = (melody, g1)"
    and m: "m = assign_pitches melody chosen_pitches"
    by blast
  have "int (melody_length melody) = length' \<and> total_duration melody = duration
        \<and> on_grid grid_size melody"
    using r
  proof
    assume a: "(duration_mode = DurationMode.Random \<or> duration_mode = DurationMode.Maximum)
           \<and> random_rhythm length' duration grid_size duration_mode g = Inr (melody, g1)"
    from random_rhythm_correct [OF gs N assms(2) L, of duration_mode g] a
    show ?thesis by auto
  next
    assume a: "(duration_mode = DurationMode.Minimum \<or> duration_mode = DurationMode.Fixed)
           \<and> fixed_rhythm length' duration grid_size nd g = (melody, g1)"
    let ?k = "py_int (nd / grid_size)"
    have k: "of_int ?k = nd / grid_size"
    proof (cases "duration_mode = DurationMode.Minimum")
      case True
      then have "nd / grid_size = of_int 1" using minimum gs by simp
      then show ?thesis by (simp only: py_int_of_int)
    next
      case False
      then show ?thesis using a fixed by simp
    qed
    have nd1: "nd * of_int length' \<le> duration" and nd2: "grid_size \<le> nd"
    proof -
      show "nd * of_int length' \<le> duration"
      proof (cases "duration_mode = DurationMode.Minimum")
        case True
        have "of_int length' * grid_size \<le> of_int (py_int (duration / grid_size)) * grid_size
              \<or> grid_size < 0"
          using L gs by (simp add: mult_le_cancel_right)
        moreover have "grid_size < 0 \<Longrightarrow> nd * of_int length' \<le> duration"
        proof -
          assume neg: "grid_size < 0"
          have "duration / grid_size \<le> 1" using neg d by (simp add: divide_le_eq_1)
          then have "(of_int (py_int (duration / grid_size)) :: rat) \<le> of_int 1" using N by simp
          then have "py_int (duration / grid_size) \<le> 1" by (simp only: of_int_le_iff)
          then have "length' = 1" using L assms(2) by simp
          then show ?thesis using True minimum d by simp
        qed
        ultimately show ?thesis using True minimum N gs by (auto simp: mult.commute)
      next
        case False
        then show ?thesis using a fixed by simp
      qed
      show "grid_size \<le> nd" using a fixed minimum by auto
    qed
    have "length' * ?k \<le> py_int (duration / grid_size)"
      using gs N assms(2) L d nd1 nd2 k by (rule fixed_counts)
    moreover have "nd = of_int ?k * grid_size" using k gs by simp
    ultimately show ?thesis
      using fixed_rhythm_correct [OF gs N _ assms(2), of nd ?k g melody g1] a by blast
  qed
  then show ?thesis
    by (simp add: m length_assign total_duration_assign_pitches on_grid_assign_pitches)
qed









lemma projected_result:
  "map_option (map_sum id fst) r = Some (Inr m) \<Longrightarrow> \<exists>g'. r = Some (Inr (m, g'))"
  by (cases r) (auto simp: map_sum_def split: sum.splits)






text \<open>
  Without \<open>alternate\<close>, GenerateMelody returns a melody for every input that passes
  the validation and has a pitch to draw from, on every random stream: the two theorems
  above speak of every such input. (With \<open>alternate\<close> the pitch loop ends or not,
  depending on the stream.)
\<close>

lemma choices_succeeds:
  "population \<noteq> [] \<Longrightarrow> \<exists>result g'. choices population k g = Inr (result, g')"
  by (cases "choices_loop population (nat k) g") (simp add: choices_def)

lemma choose_pitches_returns:
  assumes "pitches \<noteq> []"
  shows "\<exists>chosen g'. choose_pitches pitches length' False use_all g = Some (Inr (chosen, g'))"
proof -
  obtain a g1 where a: "choices pitches length' g = Inr (a, g1)"
    using choices_succeeds [OF assms] by blast
  obtain b g2 where b: "choices pitches (length' - int (length pitches)) g = Inr (b, g2)"
    using choices_succeeds [OF assms] by blast
  obtain c g3 where c: "shuffle a g1 = (c, g3)" by (cases "shuffle a g1")
  obtain d g4 where d: "shuffle (pitches @ b) g2 = (d, g4)" by (cases "shuffle (pitches @ b) g2")
  show ?thesis using a b c d by (cases use_all) (simp_all add: choose_pitches_def)
qed

lemma GenerateMelody_returns:
  assumes L: "0 < length'"
    and gs: "grid_size \<noteq> 0" "grid_size \<le> duration"
    and N: "of_int (py_int (duration / grid_size)) = duration / grid_size"
      "length' \<le> py_int (duration / grid_size)"
    and fixed: "duration_mode = DurationMode.Fixed \<Longrightarrow>
        note_duration = Some nd \<and> nd \<noteq> 0 \<and> nd * of_int length' \<le> duration \<and> grid_size \<le> nd
        \<and> of_int (py_int (nd / grid_size)) = nd / grid_size"
    and p: "pitches \<noteq> []"
    and u: "use_all \<Longrightarrow> int (length (remdups pitches)) \<le> length'"
  shows "\<exists>m g'. GenerateMelody pitches length' duration grid_size duration_mode note_duration
           False use_all g = Some (Inr (m, g'))"
proof -
  let ?r = "if duration_mode = DurationMode.Random \<or> duration_mode = DurationMode.Maximum
               then random_rhythm length' duration grid_size duration_mode g
               else Inr (fixed_rhythm length' duration grid_size
                           (if duration_mode = DurationMode.Minimum then grid_size
                            else the note_duration) g)"
  have "\<exists>melody g1. ?r = Inr (melody, g1)"
  proof (cases "duration_mode = DurationMode.Random \<or> duration_mode = DurationMode.Maximum")
    case True
    then show ?thesis
      using random_rhythm_correct [OF gs(1) N(1) L N(2), of duration_mode g] by auto
  next
    case False
    then show ?thesis by (simp add: prod_eq_iff)
  qed
  then obtain melody g1 where r: "?r = Inr (melody, g1)" by blast
  have "remdups pitches \<noteq> []" using p by simp
  from choose_pitches_returns [OF this] obtain chosen g2 where
    c: "choose_pitches (remdups pitches) length' False use_all g1 = Some (Inr (chosen, g2))"
    by blast
  have "GenerateMelody pitches length' duration grid_size duration_mode note_duration
           False use_all g = Some (Inr (assign_pitches melody chosen, g2))"
    unfolding GenerateMelody_def Let_def
    using L gs N fixed u r c by (auto simp: not_less)
  then show ?thesis by blast
qed

section \<open>Verification: alternating pitches\<close>

lemma adjacent_equal_iff: "adjacent_equal ps \<longleftrightarrow> \<not> distinct_adj ps"
  by (induction ps rule: adjacent_equal.induct) auto

lemma insert_at_distinct_adj:
  assumes d: "distinct_adj xs" and i: "idx \<le> length xs"
    and prev: "0 < idx \<Longrightarrow> xs ! (idx - 1) \<noteq> p"
    and nxt: "idx < length xs \<Longrightarrow> xs ! idx \<noteq> p"
  shows "distinct_adj (insert_at idx p xs)"
proof -
  have x: "xs = take idx xs @ drop idx xs" by simp
  from d have dt: "distinct_adj (take idx xs)" and dd: "distinct_adj (drop idx xs)"
    by (metis x distinct_adj_appendD1, metis x distinct_adj_appendD2)
  have l: "take idx xs \<noteq> [] \<Longrightarrow> last (take idx xs) \<noteq> p"
  proof -
    assume ne: "take idx xs \<noteq> []"
    then have "0 < idx" by (cases idx) auto
    moreover have "last (take idx xs) = xs ! (idx - 1)"
      using ne i by (simp add: last_conv_nth min_def)
    ultimately show ?thesis using prev by simp
  qed
  have h: "drop idx xs \<noteq> [] \<Longrightarrow> p \<noteq> hd (drop idx xs)"
  proof -
    assume ne: "drop idx xs \<noteq> []"
    then have "idx < length xs" by simp
    moreover from this have "hd (drop idx xs) = xs ! idx" by (simp add: hd_drop_conv_nth)
    ultimately show ?thesis using nxt by auto
  qed
  have "distinct_adj (p # drop idx xs)" using dd h by (auto simp: distinct_adj_Cons)
  then show ?thesis
    unfolding insert_at_def using dt l by (auto simp: distinct_adj_append_iff)
qed

lemma length_insert_at: "length (insert_at idx p xs) = Suc (length xs)"
  by (simp add: insert_at_def)

lemma try_insert_invariant:
  "try_insert chosen p indices g = Inr (res, g') \<Longrightarrow> distinct_adj chosen
   \<Longrightarrow> set indices \<subseteq> {0 .. length chosen}
   \<Longrightarrow> distinct_adj res \<and> length chosen \<le> length res \<and> length res \<le> Suc (length chosen)"
proof (induction chosen p indices g rule: try_insert.induct)
  case (1 chosen p indices g)
  note unfold = try_insert.simps [of chosen p indices g]
  show ?case
  proof (cases "indices = []")
    case True
    then have "res = chosen" using "1.prems"(1) [unfolded unfold] by simp
    then show ?thesis using "1.prems"(2) by simp
  next
    case False
    then obtain idx g1 where c: "choice indices g = Inr (idx, g1)"
      using choice_succeeds by blast
    then have "idx \<in> set indices" by (rule choice_member)
    then have i: "idx \<le> length chosen" using "1.prems"(3) by auto
    let ?can = "(if 0 < idx then Some (chosen ! (idx - 1)) else None) \<noteq> Some p
                \<and> (if idx < length chosen then Some (chosen ! idx) else None) \<noteq> Some p"
    show ?thesis
    proof (cases ?can)
      case True
      then have r: "res = insert_at idx p chosen"
        using "1.prems"(1) [unfolded unfold] False c by (simp add: Let_def)
      have "distinct_adj (insert_at idx p chosen)"
        using "1.prems"(2) i True by (intro insert_at_distinct_adj) auto
      then show ?thesis by (simp add: r length_insert_at)
    next
      case F: False
      have rec: "try_insert chosen p (remove1 idx indices) g1 = Inr (res, g')"
        using "1.prems"(1) [unfolded unfold] False c F by (simp add: Let_def)
      have sub: "set (remove1 idx indices) \<subseteq> {0 .. length chosen}"
        using "1.prems"(3) set_remove1_subset by fastforce
      show ?thesis
        by (rule "1.IH" [OF False c refl refl refl refl F rec "1.prems"(2) sub])
    qed
  qed
qed

lemma alternate_loop_invariant:
  assumes "alternate_loop pitches length' chosen g = Some (Inr (res, g'))"
    and "distinct_adj chosen" and "int (length chosen) \<le> length'"
  shows "distinct_adj res \<and> int (length res) = length'"
proof -
  have "\<forall>res g'. y = Inr (res, g') \<longrightarrow> distinct_adj chosen \<longrightarrow> int (length chosen) \<le> length'
          \<longrightarrow> distinct_adj res \<and> int (length res) = length'"
    if "alternate_loop pitches length' chosen g = Some y" for y
  proof (rule alternate_loop.raw_induct
      [where P = "\<lambda>pitches length' chosen g y.
         \<forall>res g'. y = Inr (res, g') \<longrightarrow> distinct_adj chosen \<longrightarrow> int (length chosen) \<le> length'
           \<longrightarrow> distinct_adj res \<and> int (length res) = length'", OF _ that])
    fix loop :: "pitch list \<Rightarrow> int \<Rightarrow> pitch list \<Rightarrow> rng \<Rightarrow> (error + (pitch list \<times> rng)) option"
      and pitches length' chosen g y
    assume IH: "\<And>pitches length' chosen g y. loop pitches length' chosen g = Some y \<Longrightarrow>
        \<forall>res g'. y = Inr (res, g') \<longrightarrow> distinct_adj chosen \<longrightarrow> int (length chosen) \<le> length'
           \<longrightarrow> distinct_adj res \<and> int (length res) = length'"
      and body: "(if int (length chosen) < length' then
        (case choice pitches g of
           Inl e \<Rightarrow> Some (Inl e)
         | Inr (pitch_to_insert, g1) \<Rightarrow>
             (case try_insert chosen pitch_to_insert [0 ..< length chosen + 1] g1 of
                Inl e \<Rightarrow> Some (Inl e)
              | Inr (chosen_pitches', g2) \<Rightarrow> loop pitches length' chosen_pitches' g2))
      else Some (Inr (chosen, g))) = Some y"
    show "\<forall>res g'. y = Inr (res, g') \<longrightarrow> distinct_adj chosen \<longrightarrow> int (length chosen) \<le> length'
           \<longrightarrow> distinct_adj res \<and> int (length res) = length'"
    proof (intro allI impI)
      fix res g'
      assume y: "y = Inr (res, g')" and d: "distinct_adj chosen" and le: "int (length chosen) \<le> length'"
      show "distinct_adj res \<and> int (length res) = length'"
      proof (cases "int (length chosen) < length'")
        case False
        then show ?thesis using body y d le by simp
      next
        case True
        with body y obtain p g1 chosen' g2 where
          t: "try_insert chosen p [0 ..< length chosen + 1] g1 = Inr (chosen', g2)"
          and rec: "loop pitches length' chosen' g2 = Some (Inr (res, g'))"
          by (auto split: sum.splits prod.splits)
        have "set [0 ..< length chosen + 1] \<subseteq> {0 .. length chosen}" by auto
        from try_insert_invariant [OF t d this]
        have d': "distinct_adj chosen'" and l': "length chosen' \<le> Suc (length chosen)" by simp_all
        have "int (length chosen') \<le> length'" using l' True by simp
        then show ?thesis using IH [OF rec] d' by blast
      qed
    qed
  qed
  then show ?thesis using assms by blast
qed

lemma distinct_imp_distinct_adj': "distinct xs \<Longrightarrow> distinct_adj xs"
proof (induction xs)
  case Nil
  show ?case by simp
next
  case (Cons x xs)
  then show ?case by (cases xs) (auto simp: distinct_adj_Cons)
qed

lemma choose_pitches_alternate:
  assumes c: "choose_pitches pitches length' True use_all g = Some (Inr (chosen, g'))"
    and d: "distinct pitches"
    and u: "use_all \<Longrightarrow> int (length pitches) \<le> length'"
    and L: "0 \<le> length'"
  shows "distinct_adj chosen \<and> int (length chosen) = length'"
proof -
  obtain chosen0 g1 where s: "(if use_all then shuffle pitches g else ([], g)) = (chosen0, g1)"
    by (cases "if use_all then shuffle pitches g else ([], g)")
  have loop: "alternate_loop pitches length' chosen0 g1 = Some (Inr (chosen, g'))"
    using c s by (simp add: choose_pitches_def)
  have "distinct_adj chosen0 \<and> int (length chosen0) \<le> length'"
  proof (cases use_all)
    case True
    then have "mset chosen0 = mset pitches" using s mset_shuffle by auto
    then have "distinct chosen0" and "length chosen0 = length pitches"
      using d by (metis mset_eq_imp_distinct_iff, metis size_mset)
    then show ?thesis using u True by (simp add: distinct_imp_distinct_adj')
  next
    case False
    then show ?thesis using s L by auto
  qed
  then show ?thesis using alternate_loop_invariant [OF loop] by blast
qed

text \<open>
  Claim C2. Whenever GenerateMelody with \<open>alternate = true\<close> returns a melody (the
  validation has accepted the input, with at least 2 distinct pitches, and the pitch
  loop has ended on this random stream), no two Notes that follow each other in the
  melody have equal pitches, with \<open>use_all\<close> false and with \<open>use_all\<close> true.
\<close>

theorem GenerateMelody_alternate_no_adjacent_equal:
  assumes "GenerateMelody pitches length' duration grid_size duration_mode note_duration
             True use_all g = Some (Inr (m, g'))"
  shows "\<not> adjacent_equal (map pitch (melody_notes m))"
proof (cases "0 < length'")
  case False
  then have "m = []" using assms by (simp add: GenerateMelody_def)
  then show ?thesis by (simp add: melody_notes_def)
next
  case True
  from GenerateMelody_returns_cases [OF assms True] obtain melody g1 chosen_pitches where
    two: "2 \<le> length (remdups pitches)"
    and u: "use_all \<longrightarrow> int (length (remdups pitches)) \<le> length'"
    and c: "choose_pitches (remdups pitches) length' True use_all g1 = Some (Inr (chosen_pitches, g'))"
    and m: "m = assign_pitches melody chosen_pitches"
    by auto
  have "distinct (remdups pitches)" by simp
  from choose_pitches_alternate [OF c this] u True
  have d: "distinct_adj chosen_pitches" and l: "int (length chosen_pitches) = length'" by auto
  have "int (melody_length m) = length'" using GenerateMelody_rhythm [OF assms True] by simp
  then have "length chosen_pitches = melody_length melody" using l by (simp add: m length_assign)
  then have "map pitch (melody_notes m) = chosen_pitches" unfolding m by (rule notes_assign)
  then show ?thesis using d by (simp add: adjacent_equal_iff)
qed

theorem GenerateMelody_alternate_no_adjacent_equal_witness:
  "map_option (map_sum id fst)
     (GenerateMelody [Pitch ''C4'', Pitch ''D4'', Pitch ''E4''] 4 8 (1 / 2) DurationMode.Random None
        True False (\<lambda>i. i))
     = Some (Inr [Note (Pitch ''E4'') (1 / 2), Note (Pitch ''C4'') (1 / 2),
                  Note (Pitch ''D4'') (1 / 2), Note (Pitch ''E4'') 4, Rest (5 / 2)])
   \<and> \<not> adjacent_equal (map pitch (melody_notes
          [Note (Pitch ''E4'') (1 / 2), Note (Pitch ''C4'') (1 / 2),
           Note (Pitch ''D4'') (1 / 2), Note (Pitch ''E4'') 4, Rest (5 / 2)]))
   \<and> map_option (map_sum id fst)
     (GenerateMelody [Pitch ''C4'', Pitch ''D4''] 4 4 1 DurationMode.Fixed (Some 1)
        True True (\<lambda>i. i))
     = Some (Inr [Note (Pitch ''D4'') 1, Note (Pitch ''C4'') 1, Note (Pitch ''D4'') 1,
                  Note (Pitch ''C4'') 1])
   \<and> \<not> adjacent_equal (map pitch (melody_notes
          [Note (Pitch ''D4'') 1, Note (Pitch ''C4'') 1, Note (Pitch ''D4'') 1,
           Note (Pitch ''C4'') 1]))"
proof -
  let ?m1 = "[Note (Pitch ''E4'') (1 / 2), Note (Pitch ''C4'') (1 / 2),
              Note (Pitch ''D4'') (1 / 2), Note (Pitch ''E4'') 4, Rest (5 / 2)]"
  let ?m2 = "[Note (Pitch ''D4'') 1, Note (Pitch ''C4'') 1, Note (Pitch ''D4'') 1,
              Note (Pitch ''C4'') 1]"
  have r1: "map_option (map_sum id fst)
     (GenerateMelody [Pitch ''C4'', Pitch ''D4'', Pitch ''E4''] 4 8 (1 / 2) DurationMode.Random None
        True False (\<lambda>i. i)) = Some (Inr ?m1)"
    by code_simp
  have r2: "map_option (map_sum id fst)
     (GenerateMelody [Pitch ''C4'', Pitch ''D4''] 4 4 1 DurationMode.Fixed (Some 1)
        True True (\<lambda>i. i)) = Some (Inr ?m2)"
    by code_simp
  from projected_result [OF r1] obtain g1 where
    "GenerateMelody [Pitch ''C4'', Pitch ''D4'', Pitch ''E4''] 4 8 (1 / 2) DurationMode.Random None
        True False (\<lambda>i. i) = Some (Inr (?m1, g1))" ..
  then have p1: "\<not> adjacent_equal (map pitch (melody_notes ?m1))"
    by (rule GenerateMelody_alternate_no_adjacent_equal)
  from projected_result [OF r2] obtain g2 where
    "GenerateMelody [Pitch ''C4'', Pitch ''D4''] 4 4 1 DurationMode.Fixed (Some 1)
        True True (\<lambda>i. i) = Some (Inr (?m2, g2))" ..
  then have p2: "\<not> adjacent_equal (map pitch (melody_notes ?m2))"
    by (rule GenerateMelody_alternate_no_adjacent_equal)
  show ?thesis using r1 r2 p1 p2 by blast
qed

section \<open>Verification: formula nodes\<close>

lemma formula_value_cached:
  "truthy (cached f) \<Longrightarrow> formula_value service f w = (Inr (the (cached f)), f, w)"
  by (cases f) simp

lemma formula_value_success_cached:
  assumes "formula_value service f w = (Inr m, f', w')"
  shows "cached f' = Some m"
proof (cases f)
  case (MelodyFormula name ps succ err clr v)
  show ?thesis
  proof (cases "truthy v")
    case True
    then show ?thesis using assms MelodyFormula by (auto simp: truthy_def split: option.splits)
  next
    case False
    then show ?thesis using assms MelodyFormula
      by (auto split: prod.splits sum.splits)
  qed
qed

text \<open>
  Claim C4, evaluated on a node whose operation returns an empty melody
  (\<open>ConcatMelodies\<close> without melodies): the first evaluation calls the operation, stores
  the empty melody and calls \<open>on_success\<close>; the second evaluation, with nothing cleared
  in between, finds the stored empty melody false, calls the operation again and calls
  \<open>on_success\<close> again. (A stored melody with events is returned without any call:
  \<open>formula_value_cached\<close>.)
\<close>

theorem formula_value_empty_melody_recomputed:
  "formula_value service_method
     (MelodyFormula ''ConcatMelodies'' [] (Some ''on_success'') None None None) (g, [])
   = (Inr [],
      MelodyFormula ''ConcatMelodies'' [] (Some ''on_success'') None None (Some []),
      (g, [Call ''ConcatMelodies'', Hook ''on_success'']))
   \<and> formula_value service_method
     (MelodyFormula ''ConcatMelodies'' [] (Some ''on_success'') None None (Some []))
     (g, [Call ''ConcatMelodies'', Hook ''on_success''])
   = (Inr [],
      MelodyFormula ''ConcatMelodies'' [] (Some ''on_success'') None None (Some []),
      (g, [Call ''ConcatMelodies'', Hook ''on_success'',
           Call ''ConcatMelodies'', Hook ''on_success'']))"
  by (simp add: truthy_def service_method_def melody_kw_def ConcatMelodies_def call_hook_def)




section \<open>Verification: the operations leave their inputs alone\<close>

lemma ub_refl: "unchanged_below n h h"
  by (simp add: unchanged_below_def)

lemma ub_trans: "unchanged_below n h h1 \<Longrightarrow> unchanged_below n h1 h2 \<Longrightarrow> unchanged_below n h h2"
  by (auto simp: unchanged_below_def)

lemma ub_weaken: "unchanged_below m h h' \<Longrightarrow> n \<le> m \<Longrightarrow> unchanged_below n h h'"
  by (auto simp: unchanged_below_def)

lemma ub_lim: "unchanged_below n h h' \<Longrightarrow> lim h \<le> lim h'"
  by (simp add: unchanged_below_def)

lemma ub_step: "unchanged_below n h h1 \<Longrightarrow> unchanged_below (lim h1) h1 h2 \<Longrightarrow> n \<le> lim h
  \<Longrightarrow> unchanged_below n h h2"
  by (auto simp: unchanged_below_def)

lemma ub_melody_value:
  "melody_ref h r \<Longrightarrow> unchanged_below (lim h) h h' \<Longrightarrow> melody_value h' r = melody_value h r"
  by (auto simp: melody_ref_def unchanged_below_def melody_value_def)

lemma ub_set_pitch: "n \<le> a \<Longrightarrow> unchanged_below n h (set_pitch h a p)"
  by (simp add: unchanged_below_def set_pitch_def)

lemma ub_set_stream: "n \<le> r \<Longrightarrow> unchanged_below n h (set_stream h r elems)"
  by (simp add: unchanged_below_def set_stream_def)

lemma set_pitch_fields [simp]:
  "lim (set_pitch h a p) = lim h" "streams (set_pitch h a p) = streams h"
  by (simp_all add: set_pitch_def)

lemma set_pitch_is_Note [simp]: "is_Note (objects (set_pitch h a p) b) = is_Note (objects h b)"
  by (simp add: set_pitch_def split: event.splits)

lemma notes_h_set_pitch [simp]: "notes_h (set_pitch h a p) r = notes_h h r"
  by (simp add: notes_h_def)

lemma alloc_objects_props:
  "alloc_objects h objs = (as, h') \<Longrightarrow>
     lim h \<le> lim h' \<and> streams h' = streams h
     \<and> (\<forall>a. a < lim h \<longrightarrow> objects h' a = objects h a)
     \<and> (\<forall>a \<in> set as. lim h \<le> a \<and> a < lim h')
     \<and> map (objects h') as = objs"
proof (induction objs arbitrary: h as h')
  case Nil
  then show ?case by simp
next
  case (Cons obj objs)
  let ?h1 = "h\<lparr>objects := (objects h)(lim h := obj), lim := Suc (lim h)\<rparr>"
  obtain bs h2 where r: "alloc_objects ?h1 objs = (bs, h2)" by (cases "alloc_objects ?h1 objs")
  then have e: "as = lim h # bs" "h' = h2"
    using Cons.prems by (simp_all add: alloc_object_def)
  note IH = Cons.IH [OF r]
  have l: "Suc (lim h) \<le> lim h2" using IH by simp
  have st: "streams h2 = streams h" using IH by simp
  have ob: "\<And>a. a < Suc (lim h) \<Longrightarrow> objects h2 a = objects ?h1 a" using IH by simp
  have bs: "\<And>a. a \<in> set bs \<Longrightarrow> lim h \<le> a" "\<And>a. a \<in> set bs \<Longrightarrow> a < lim h2"
    using IH by (simp, fastforce, simp)
  have mp: "map (objects h2) bs = objs" using IH by blast
  have o: "objects h2 (lim h) = obj" using ob [of "lim h"] by simp
  have ob': "\<And>a. a < lim h \<Longrightarrow> objects h2 a = objects h a" using ob by simp
  show ?case
    unfolding e using l st ob' bs mp o by (auto simp del: upt_Suc)
qed

lemma new_melody_props:
  assumes "new_melody h objs = (r, h')"
  shows "unchanged_below (lim h) h h'" and "owned (lim h) h' r" and "melody_value h' r = objs"
proof -
  obtain as h1 where a: "alloc_objects h objs = (as, h1)" by (cases "alloc_objects h objs")
  note p = alloc_objects_props [OF a]
  have r: "r = lim h1" and h': "h' = h1\<lparr>streams := (streams h1)(lim h1 := as), lim := Suc (lim h1)\<rparr>"
    using assms a by (auto simp: new_melody_def alloc_stream_def)
  show "unchanged_below (lim h) h h'" using p by (simp add: unchanged_below_def h')
  show "owned (lim h) h' r" using p by (auto simp: owned_def h' r)
  show "melody_value h' r = objs" using p by (simp add: melody_value_def h' r)
qed

lemma deepcopy_props:
  assumes "deepcopy h r0 = (r, h')"
  shows "unchanged_below (lim h) h h'" and "owned (lim h) h' r"
  using assms new_melody_props unfolding deepcopy_def by blast+

lemma deepcopy_list_props:
  assumes "deepcopy_list h as = (bs, h')"
  shows "unchanged_below (lim h) h h'"
  using alloc_objects_props [OF assms [unfolded deepcopy_list_def]]
  by (simp add: unchanged_below_def)

lemma alloc_stream_props:
  assumes "alloc_stream h elems = (r, h')"
  shows "unchanged_below (lim h) h h'"
  using assms by (auto simp: alloc_stream_def unchanged_below_def)

lemma owned_preserved:
  "owned n h r \<Longrightarrow> unchanged_below (lim h) h h' \<Longrightarrow> owned n h' r \<and> notes_h h' r = notes_h h r"
proof -
  assume o: "owned n h r" and u: "unchanged_below (lim h) h h'"
  have s: "streams h' r = streams h r" using o u by (simp add: owned_def unchanged_below_def)
  have "\<forall>a \<in> set (streams h r). objects h' a = objects h a"
    using o u by (simp add: owned_def unchanged_below_def)
  then have "notes_h h' r = notes_h h r"
    unfolding notes_h_def s by (intro filter_cong) auto
  moreover have "owned n h' r" using o u s by (auto simp: owned_def unchanged_below_def)
  ultimately show ?thesis by simp
qed

lemma owned_weaken: "owned m h r \<Longrightarrow> n \<le> m \<Longrightarrow> owned n h r"
  by (auto simp: owned_def)

lemma owned_notes: "owned n h r \<Longrightarrow> a \<in> set (notes_h h r) \<Longrightarrow> n \<le> a"
  by (auto simp: owned_def notes_h_def)

lemma owned_set_pitch [simp]: "owned n (set_pitch h a p) r = owned n h r"
  by (simp add: owned_def)

lemma ub_copy_pitches:
  "\<forall>a \<in> fst ` set pairs. n \<le> a \<Longrightarrow> unchanged_below n h (copy_pitches h pairs)"
proof (induction h pairs rule: copy_pitches.induct)
  case (1 h)
  show ?case by (simp add: ub_refl)
next
  case (2 h nt other pairs)
  have "unchanged_below n h (set_pitch h nt (pitch_h h other))"
    using "2.prems" by (simp add: ub_set_pitch)
  moreover have "unchanged_below n (set_pitch h nt (pitch_h h other))
                  (copy_pitches (set_pitch h nt (pitch_h h other)) pairs)"
    using 2 by simp
  ultimately show ?case using ub_trans by simp
qed

lemma ub_write_pitches:
  "\<forall>a \<in> fst ` set pairs. n \<le> a \<Longrightarrow> unchanged_below n h (write_pitches h pairs)"
proof (induction h pairs rule: write_pitches.induct)
  case (1 h)
  show ?case by (simp add: ub_refl)
next
  case (2 h nt p pairs)
  have "unchanged_below n h (set_pitch h nt p)" using "2.prems" by (simp add: ub_set_pitch)
  moreover have "unchanged_below n (set_pitch h nt p) (write_pitches (set_pitch h nt p) pairs)"
    using 2 by simp
  ultimately show ?case using ub_trans by simp
qed

lemma ub_change_each_h:
  "change_each_h h ns pitches g = Inr (h', g') \<Longrightarrow> \<forall>a \<in> set ns. n \<le> a \<Longrightarrow> unchanged_below n h h'"
proof (induction h ns pitches g rule: change_each_h.induct)
  case (1 h pitches g)
  then show ?case by (simp add: ub_refl)
next
  case (2 h nt ns pitches g)
  from "2.prems"(1) obtain p g1 where c: "choice pitches g = Inr (p, g1)"
    and r: "change_each_h (set_pitch h nt p) ns pitches g1 = Inr (h', g')"
    by (auto split: sum.splits)
  have "unchanged_below n h (set_pitch h nt p)" using "2.prems"(2) by (simp add: ub_set_pitch)
  moreover have "unchanged_below n (set_pitch h nt p) h'"
    using "2.IH" [OF c refl r] "2.prems"(2) by simp
  ultimately show ?case by (rule ub_trans)
qed

lemma ub_swap_batched:
  "swap_batched h ns = Inr h' \<Longrightarrow> \<forall>a \<in> set ns. n \<le> a \<Longrightarrow> unchanged_below n h h'"
proof (induction h ns rule: swap_batched.induct)
  case (1 h)
  then show ?case by (simp add: ub_refl)
next
  case (2 h note_1)
  then show ?case by simp
next
  case (3 h note_1 note_2 ns)
  let ?h1 = "set_pitch h note_1 (pitch_h h note_2)"
  let ?h2 = "set_pitch ?h1 note_2 (pitch_h h note_1)"
  have "unchanged_below n h ?h1" using "3.prems"(2) by (simp add: ub_set_pitch)
  moreover have "unchanged_below n ?h1 ?h2" using "3.prems"(2) by (simp add: ub_set_pitch)
  moreover have "unchanged_below n ?h2 h'" using 3 by simp
  ultimately show ?case using ub_trans by blast
qed

lemma ub_remap_each:
  "remap_each h ns mapping = Inr h' \<Longrightarrow> \<forall>a \<in> set ns. n \<le> a \<Longrightarrow> unchanged_below n h h'"
proof (induction h ns mapping rule: remap_each.induct)
  case (1 h mapping)
  then show ?case by (simp add: ub_refl)
next
  case (2 h nt ns mapping)
  from "2.prems"(1) obtain p where m: "mapping (pitch_h h nt) = Some p"
    and r: "remap_each (set_pitch h nt p) ns mapping = Inr h'"
    by (auto split: option.splits)
  have "unchanged_below n h (set_pitch h nt p)" using "2.prems"(2) by (simp add: ub_set_pitch)
  moreover have "unchanged_below n (set_pitch h nt p) h'"
    using "2.IH" [OF m r] "2.prems"(2) by simp
  ultimately show ?case by (rule ub_trans)
qed

lemma ub_take_pitches:
  "take_pitches h ns originals = Inr h' \<Longrightarrow> \<forall>a \<in> set ns. n \<le> a \<Longrightarrow> unchanged_below n h h'"
proof (induction h ns originals rule: take_pitches.induct)
  case (1 h originals)
  then show ?case by (simp add: ub_refl)
next
  case (2 h nt ns)
  then show ?case by simp
next
  case (3 h nt ns original originals)
  have "unchanged_below n h (set_pitch h nt (pitch_h h original))"
    using "3.prems"(2) by (simp add: ub_set_pitch)
  moreover have "unchanged_below n (set_pitch h nt (pitch_h h original)) h'"
    using 3 by simp
  ultimately show ?case by (rule ub_trans)
qed

lemma sample_subset: "sample xs k g = Inr (res, g') \<Longrightarrow> set res \<subseteq> set xs"
proof -
  assume a: "sample xs k g = Inr (res, g')"
  then have k: "nat k \<le> length xs" and sp: "sample_pool xs (nat k) g = (res, g')"
    by (auto simp: sample_def split: if_splits)
  from sample_pool_sub [OF k sp] have "mset res \<subseteq># mset xs" by simp
  then show ?thesis by (metis set_mset_mono set_mset_mset)
qed

lemma choices_loop_subset:
  "xs \<noteq> [] \<Longrightarrow> choices_loop xs k g = (res, g') \<Longrightarrow> set res \<subseteq> set xs"
proof (induction k arbitrary: g res g')
  case 0
  then show ?case by simp
next
  case (Suc k)
  obtain i g1 where r: "randbelow (length xs) g = (i, g1)" by (cases "randbelow (length xs) g")
  obtain rest g2 where c: "choices_loop xs k g1 = (rest, g2)" by (cases "choices_loop xs k g1")
  have "i < length xs" using Suc.prems(1) r by (intro randbelow_less [OF _ r]) simp
  moreover have "res = xs ! i # rest" using Suc.prems(2) r c by simp
  moreover have "set rest \<subseteq> set xs" using Suc.IH [OF Suc.prems(1) c] .
  ultimately show ?case by simp
qed

lemma choices_subset: "choices xs k g = Inr (res, g') \<Longrightarrow> set res \<subseteq> set xs"
proof (cases "xs = []")
  case True
  assume "choices xs k g = Inr (res, g')"
  then have "res = []" using True by (cases "nat k") (auto simp: choices_def split: if_splits)
  then show ?thesis by simp
next
  case False
  assume "choices xs k g = Inr (res, g')"
  then have "choices_loop xs (nat k) g = (res, g')" by (auto simp: choices_def split: if_splits)
  then show ?thesis using False choices_loop_subset by blast
qed

lemma shuffle_set: "shuffle x g = (y, g') \<Longrightarrow> set y = set x"
  using mset_shuffle mset_eq_setD by blast

lemma ChangePitch_h_frame:
  assumes "ChangePitch_h h melody0 amount_mode amount0 pitches0 g = Inr (res, h', g')"
  shows "unchanged_below (lim h) h h'"
proof -
  obtain melody h1 where d: "deepcopy h melody0 = (melody, h1)" by (cases "deepcopy h melody0")
  note u1 = deepcopy_props(1) [OF d] and o1 = deepcopy_props(2) [OF d]
  from assms d obtain amount g1 notes_to_change g2 pitches where
    c: "choices (notes_h h1 melody) amount g1 = Inr (notes_to_change, g2)"
    and e: "change_each_h h1 notes_to_change pitches g2 = Inr (h', g')"
    unfolding ChangePitch_h_def Let_def
    by (auto split: sum.splits if_splits prod.splits)
  have "\<forall>a \<in> set notes_to_change. lim h \<le> a"
    using choices_subset [OF c] owned_notes [OF o1] by blast
  from ub_change_each_h [OF e this] u1 show ?thesis by (rule ub_trans [rotated])
qed

lemma SwapPitch_h_frame:
  assumes "SwapPitch_h h melody0 amount_mode amount0 g = Inr (res, h', g')"
  shows "unchanged_below (lim h) h h'"
proof -
  obtain melody h1 where d: "deepcopy h melody0 = (melody, h1)" by (cases "deepcopy h melody0")
  note u1 = deepcopy_props(1) [OF d] and o1 = deepcopy_props(2) [OF d]
  from assms d obtain a g1 sampled g2 notes_to_change g3 where
    s: "sample (notes_h h1 melody) a g1 = Inr (sampled, g2)"
    and sh: "shuffle sampled g2 = (notes_to_change, g3)"
    and e: "swap_batched h1 notes_to_change = Inr h'"
    unfolding SwapPitch_h_def Let_def
    by (auto split: sum.splits if_splits prod.splits option.splits)
  have "\<forall>a \<in> set notes_to_change. lim h \<le> a"
    using sample_subset [OF s] shuffle_set [OF sh] owned_notes [OF o1] by blast
  from ub_swap_batched [OF e this] u1 show ?thesis by (rule ub_trans [rotated])
qed

lemma copy_to_notes_frame:
  assumes o: "owned n h r" and "set targets \<subseteq> set (notes_h h r)"
  shows "unchanged_below n h (copy_pitches h (zip targets others))"
proof (rule ub_copy_pitches)
  show "\<forall>a \<in> fst ` set (zip targets others). n \<le> a"
    using assms owned_notes [OF o] by (auto dest!: set_zip_leftD)
qed

lemma ShiftPitch_h_frame:
  assumes "ShiftPitch_h h melody0 amount_mode amount0 g = Inr (res, h', g')"
  shows "unchanged_below (lim h) h h'"
proof -
  obtain melody h1 where d: "deepcopy h melody0 = (melody, h1)" by (cases "deepcopy h melody0")
  note u1 = deepcopy_props(1) [OF d] and o1 = deepcopy_props(2) [OF d]
  obtain copied h2 where c: "deepcopy_list h1 (notes_h h1 melody) = (copied, h2)"
    by (cases "deepcopy_list h1 (notes_h h1 melody)")
  note u2 = deepcopy_list_props [OF c]
  have o2: "owned (lim h) h2 melody" using owned_preserved [OF o1 u2] by simp
  have u12: "unchanged_below (lim h) h h2"
    using u1 u2 by (rule ub_step) simp
  from assms d c have "h' = h1 \<or> (\<exists>others. h' = copy_pitches h2 (zip (notes_h h2 melody) others))"
    unfolding ShiftPitch_h_def Let_def
    by (auto split: sum.splits if_splits prod.splits option.splits)
  then show ?thesis
  proof
    assume "h' = h1"
    then show ?thesis using u1 by simp
  next
    assume "\<exists>others. h' = copy_pitches h2 (zip (notes_h h2 melody) others)"
    then obtain others where "h' = copy_pitches h2 (zip (notes_h h2 melody) others)" ..
    then have "unchanged_below (lim h) h2 h'"
      using copy_to_notes_frame [OF o2, of "notes_h h2 melody" others] by simp
    with u12 show ?thesis by (rule ub_trans)
  qed
qed

lemma RevertPitch_h_frame:
  assumes "RevertPitch_h h melody0 = (res, h')"
  shows "unchanged_below (lim h) h h'"
proof -
  obtain melody h1 where d: "deepcopy h melody0 = (melody, h1)" by (cases "deepcopy h melody0")
  note u1 = deepcopy_props(1) [OF d] and o1 = deepcopy_props(2) [OF d]
  obtain copied h2 where c: "deepcopy_list h1 (notes_h h1 melody) = (copied, h2)"
    by (cases "deepcopy_list h1 (notes_h h1 melody)")
  note u2 = deepcopy_list_props [OF c]
  have o2: "owned (lim h) h2 melody" using owned_preserved [OF o1 u2] by simp
  have u12: "unchanged_below (lim h) h h2"
    using u1 u2 by (rule ub_step) simp
  from assms d c have "h' = h1 \<or> h' = copy_pitches h2 (zip (notes_h h2 melody) (rev copied))"
    unfolding RevertPitch_h_def Let_def by (auto split: if_splits)
  then show ?thesis
  proof
    assume "h' = h1"
    then show ?thesis using u1 by simp
  next
    assume "h' = copy_pitches h2 (zip (notes_h h2 melody) (rev copied))"
    then have "unchanged_below (lim h) h2 h'"
      using copy_to_notes_frame [OF o2, of "notes_h h2 melody" "rev copied"] by simp
    with u12 show ?thesis by (rule ub_trans)
  qed
qed

lemma ShufflePitch_h_frame:
  assumes "ShufflePitch_h h melody0 amount_mode amount0 g = Inr (res, h', g')"
  shows "unchanged_below (lim h) h h'"
proof -
  obtain melody h1 where d: "deepcopy h melody0 = (melody, h1)" by (cases "deepcopy h melody0")
  note u1 = deepcopy_props(1) [OF d] and o1 = deepcopy_props(2) [OF d]
  from assms d have "h' = h1 \<or> (\<exists>a g1 note_indexes g2 ps.
      sample [0 ..< length_h h1 melody] a g1 = Inr (note_indexes, g2)
      \<and> h' = write_pitches h1 (zip (map (\<lambda>i. notes_h h1 melody ! i) note_indexes) ps))"
    unfolding ShufflePitch_h_def Let_def
    by (auto split: sum.splits if_splits prod.splits option.splits)
  then show ?thesis
  proof
    assume "h' = h1"
    then show ?thesis using u1 by simp
  next
    assume "\<exists>a g1 note_indexes g2 ps.
      sample [0 ..< length_h h1 melody] a g1 = Inr (note_indexes, g2)
      \<and> h' = write_pitches h1 (zip (map (\<lambda>i. notes_h h1 melody ! i) note_indexes) ps)"
    then obtain a g1 note_indexes g2 ps where
      s: "sample [0 ..< length_h h1 melody] a g1 = Inr (note_indexes, g2)"
      and h': "h' = write_pitches h1 (zip (map (\<lambda>i. notes_h h1 melody ! i) note_indexes) ps)"
      by blast
    have "\<forall>i \<in> set note_indexes. i < length (notes_h h1 melody)"
      using sample_subset [OF s] by (auto simp: length_h_def)
    then have "\<forall>a \<in> set (map (\<lambda>i. notes_h h1 melody ! i) note_indexes). lim h \<le> a"
      using owned_notes [OF o1] by auto
    then have "\<forall>a \<in> fst ` set (zip (map (\<lambda>i. notes_h h1 melody ! i) note_indexes) ps). lim h \<le> a"
      by (auto dest!: set_zip_leftD)
    then have "unchanged_below (lim h) h1 h'" unfolding h' by (rule ub_write_pitches)
    with u1 show ?thesis by (rule ub_trans)
  qed
qed

lemma RemapPitch_h_frame:
  assumes "RemapPitch_h h melody0 amount_mode amount0 g = Inr (res, h', g')"
  shows "unchanged_below (lim h) h h'"
proof -
  obtain melody h1 where d: "deepcopy h melody0 = (melody, h1)" by (cases "deepcopy h melody0")
  note u1 = deepcopy_props(1) [OF d] and o1 = deepcopy_props(2) [OF d]
  from assms d have "h' = h1 \<or> (\<exists>a g1 notes_to_change g2 mapping.
      sample (notes_h h1 melody) a g1 = Inr (notes_to_change, g2)
      \<and> remap_each h1 notes_to_change mapping = Inr h')"
    unfolding RemapPitch_h_def Let_def
    by (auto split: sum.splits if_splits prod.splits option.splits)
  then show ?thesis
  proof
    assume "h' = h1"
    then show ?thesis using u1 by simp
  next
    assume "\<exists>a g1 notes_to_change g2 mapping.
      sample (notes_h h1 melody) a g1 = Inr (notes_to_change, g2)
      \<and> remap_each h1 notes_to_change mapping = Inr h'"
    then obtain a g1 notes_to_change g2 mapping where
      s: "sample (notes_h h1 melody) a g1 = Inr (notes_to_change, g2)"
      and e: "remap_each h1 notes_to_change mapping = Inr h'" by blast
    have "\<forall>a \<in> set notes_to_change. lim h \<le> a"
      using sample_subset [OF s] owned_notes [OF o1] by blast
    from ub_remap_each [OF e this] u1 show ?thesis by (rule ub_trans [rotated])
  qed
qed

lemma ChangeRhythm_h_frame:
  assumes "ChangeRhythm_h h melody0 duration0 grid_size0 duration_mode note_duration g
             = Some (Inr (res, h', g'))"
  shows "unchanged_below (lim h) h h'"
proof -
  obtain melody h1 where d: "deepcopy h melody0 = (melody, h1)" by (cases "deepcopy h melody0")
  note u1 = deepcopy_props(1) [OF d]
  from assms d obtain generated another_melody h2 where
    n: "new_melody h1 generated = (another_melody, h2)"
    and t: "take_pitches h2 (notes_h h2 another_melody) (notes_h h2 melody) = Inr h'"
    unfolding ChangeRhythm_h_def Let_def
    by (auto split: sum.splits option.splits prod.splits)
  note u2 = new_melody_props(1) [OF n] and o2 = new_melody_props(2) [OF n]
  have u12: "unchanged_below (lim h) h h2" using u1 u2 by (rule ub_step) simp
  have "owned (lim h) h2 another_melody" using o2 ub_lim [OF u1] by (rule owned_weaken)
  then have "\<forall>a \<in> set (notes_h h2 another_melody). lim h \<le> a" using owned_notes by blast
  from ub_take_pitches [OF t this] u12 show ?thesis by (rule ub_trans [rotated])
qed

lemma melody_add_h_frame:
  assumes "melody_add_h h self other0 = (res, h')"
  shows "unchanged_below (lim h) h h'"
proof -
  obtain other h1 where d1: "deepcopy h other0 = (other, h1)" by (cases "deepcopy h other0")
  obtain melody h2 where d2: "deepcopy h1 self = (melody, h2)" by (cases "deepcopy h1 self")
  note u1 = deepcopy_props(1) [OF d1] and u2 = deepcopy_props(1) [OF d2]
    and o2 = deepcopy_props(2) [OF d2]
  have u12: "unchanged_below (lim h) h h2" using u1 u2 by (rule ub_step) simp
  have h': "h' = set_stream h2 melody (streams h2 melody @ streams h2 other)"
    using assms d1 d2 by (auto simp: melody_add_h_def)
  have "lim h \<le> melody" using o2 ub_lim [OF u1] by (simp add: owned_def)
  then have "unchanged_below (lim h) h2 h'" unfolding h' by (rule ub_set_stream)
  with u12 show ?thesis by (rule ub_trans)
qed

lemma reduce_add_frame:
  "reduce_add h x ys = (res, h') \<Longrightarrow> unchanged_below (lim h) h h'"
proof (induction h x ys rule: reduce_add.induct)
  case (1 h x)
  then show ?case by (simp add: ub_refl)
next
  case (2 h x y ys)
  obtain z h1 where a: "melody_add_h h x y = (z, h1)" by (cases "melody_add_h h x y")
  then have r: "reduce_add h1 z ys = (res, h')" using "2.prems" by simp
  have "unchanged_below (lim h) h h1" using a by (rule melody_add_h_frame)
  moreover have "unchanged_below (lim h1) h1 h'" using "2.IH" [OF a [symmetric] refl r] .
  ultimately show ?case by (rule ub_step) simp
qed

lemma ConcatMelodies_h_frame:
  assumes "ConcatMelodies_h h melody_1 melody_2 melody_3 melody_4 = (res, h')"
  shows "unchanged_below (lim h) h h'"
proof (cases "map the (filter (truthy_h h) [melody_1, melody_2, melody_3, melody_4])")
  case Nil
  then have "alloc_stream h [] = (res, h')" using assms by (simp add: ConcatMelodies_h_def)
  then show ?thesis by (rule alloc_stream_props)
next
  case (Cons m ms)
  then have "reduce_add h m ms = (res, h')" using assms by (simp add: ConcatMelodies_h_def)
  then show ?thesis by (rule reduce_add_frame)
qed

lemma crop_walk_subset: "set (crop_walk isnote limit notes_count objs) \<subseteq> set objs"
  by (induction objs arbitrary: notes_count) auto

lemma crop_length_h_owned:
  assumes "owned n h r"
  shows "unchanged_below n h (crop_length_h h r limit)" and "owned n (crop_length_h h r limit) r"
proof -
  have n: "n \<le> r" using assms by (simp add: owned_def)
  show "unchanged_below n h (crop_length_h h r limit)"
    unfolding crop_length_h_def using n by (simp add: ub_set_stream)
  have "owned n (set_stream h r elems) r" if "set elems \<subseteq> set (streams h r)" for elems
    using assms that by (auto simp: owned_def set_stream_def)
  then show "owned n (crop_length_h h r limit) r"
    unfolding crop_length_h_def using crop_walk_subset by simp
qed

lemma SubstitutePitch_h_frame:
  assumes "SubstitutePitch_h h rhythm0 sequence0 crop_rhythm = (res, h')"
  shows "unchanged_below (lim h) h h'"
proof -
  obtain rhythm h1 where d1: "deepcopy h rhythm0 = (rhythm, h1)" by (cases "deepcopy h rhythm0")
  obtain sequence h2 where d2: "deepcopy h1 sequence0 = (sequence, h2)"
    by (cases "deepcopy h1 sequence0")
  note u1 = deepcopy_props(1) [OF d1] and o1 = deepcopy_props(2) [OF d1]
    and u2 = deepcopy_props(1) [OF d2]
  have u12: "unchanged_below (lim h) h h2" using u1 u2 by (rule ub_step) simp
  have o2: "owned (lim h) h2 rhythm" using owned_preserved [OF o1 u2] by simp
  let ?h3 = "if crop_rhythm \<and> length_h h2 rhythm > length_h h2 sequence
             then crop_length_h h2 rhythm (int (length_h h2 sequence)) else h2"
  have u3: "unchanged_below (lim h) h2 ?h3" and o3: "owned (lim h) ?h3 rhythm"
    using crop_length_h_owned [OF o2] o2 by (simp_all add: ub_refl)
  have h': "h' = copy_pitches ?h3 (zip (notes_h ?h3 rhythm) (notes_h ?h3 sequence))"
    using assms d1 d2 by (auto simp: SubstitutePitch_h_def Let_def)
  have "unchanged_below (lim h) ?h3 h'"
    unfolding h' using o3 by (rule copy_to_notes_frame) simp
  with u12 u3 show ?thesis using ub_trans by blast
qed

lemma SubstituteRhythm_h_frame:
  assumes "SubstituteRhythm_h h sequence0 rhythm0 = (res, h')"
  shows "unchanged_below (lim h) h h'"
proof -
  obtain rhythm h1 where d1: "deepcopy h rhythm0 = (rhythm, h1)" by (cases "deepcopy h rhythm0")
  obtain sequence h2 where d2: "deepcopy h1 sequence0 = (sequence, h2)"
    by (cases "deepcopy h1 sequence0")
  note u1 = deepcopy_props(1) [OF d1] and u2 = deepcopy_props(1) [OF d2]
  have u12: "unchanged_below (lim h) h h2" using u1 u2 by (rule ub_step) simp
  have "SubstitutePitch_h h2 rhythm sequence True = (res, h')"
    using assms d1 d2 by (simp add: SubstituteRhythm_h_def)
  then have "unchanged_below (lim h2) h2 h'" by (rule SubstitutePitch_h_frame)
  with u12 show ?thesis by (rule ub_step) simp
qed

text \<open>
  Claim C7. Take any Melody of the store before the call, in particular a Melody given
  to the operation. Whenever ChangePitch, SwapPitch, ShiftPitch, ShufflePitch,
  RemapPitch, RevertPitch, ChangeRhythm, ConcatMelodies, SubstitutePitch or
  SubstituteRhythm returns, the event sequence of that Melody (pitches, durations and
  order) is by value what it was before the call: every write of the operation goes to
  an object made during the call.
\<close>

theorem operations_leave_melodies_unchanged:
  assumes "melody_ref h r"
  shows "(ChangePitch_h h melody amount_mode amount pitches g = Inr (res1, h1, g1)
            \<longrightarrow> melody_value h1 r = melody_value h r)
       \<and> (SwapPitch_h h melody amount_mode amount g = Inr (res2, h2, g2)
            \<longrightarrow> melody_value h2 r = melody_value h r)
       \<and> (ShiftPitch_h h melody amount_mode amount g = Inr (res3, h3, g3)
            \<longrightarrow> melody_value h3 r = melody_value h r)
       \<and> (ShufflePitch_h h melody amount_mode amount g = Inr (res4, h4, g4)
            \<longrightarrow> melody_value h4 r = melody_value h r)
       \<and> (RemapPitch_h h melody amount_mode amount g = Inr (res5, h5, g5)
            \<longrightarrow> melody_value h5 r = melody_value h r)
       \<and> (RevertPitch_h h melody = (res6, h6)
            \<longrightarrow> melody_value h6 r = melody_value h r)
       \<and> (ChangeRhythm_h h melody duration grid_size duration_mode note_duration g
              = Some (Inr (res7, h7, g7))
            \<longrightarrow> melody_value h7 r = melody_value h r)
       \<and> (ConcatMelodies_h h melody_1 melody_2 melody_3 melody_4 = (res8, h8)
            \<longrightarrow> melody_value h8 r = melody_value h r)
       \<and> (SubstitutePitch_h h rhythm sequence crop_rhythm = (res9, h9)
            \<longrightarrow> melody_value h9 r = melody_value h r)
       \<and> (SubstituteRhythm_h h sequence rhythm = (res10, h10)
            \<longrightarrow> melody_value h10 r = melody_value h r)"
proof (intro conjI impI)
  note keep = ub_melody_value [OF assms]
  show "melody_value h1 r = melody_value h r"
    if "ChangePitch_h h melody amount_mode amount pitches g = Inr (res1, h1, g1)"
    using that by (intro keep ChangePitch_h_frame)
  show "melody_value h2 r = melody_value h r"
    if "SwapPitch_h h melody amount_mode amount g = Inr (res2, h2, g2)"
    using that by (intro keep SwapPitch_h_frame)
  show "melody_value h3 r = melody_value h r"
    if "ShiftPitch_h h melody amount_mode amount g = Inr (res3, h3, g3)"
    using that by (intro keep ShiftPitch_h_frame)
  show "melody_value h4 r = melody_value h r"
    if "ShufflePitch_h h melody amount_mode amount g = Inr (res4, h4, g4)"
    using that by (intro keep ShufflePitch_h_frame)
  show "melody_value h5 r = melody_value h r"
    if "RemapPitch_h h melody amount_mode amount g = Inr (res5, h5, g5)"
    using that by (intro keep RemapPitch_h_frame)
  show "melody_value h6 r = melody_value h r"
    if "RevertPitch_h h melody = (res6, h6)"
    using that by (intro keep RevertPitch_h_frame)
  show "melody_value h7 r = melody_value h r"
    if "ChangeRhythm_h h melody duration grid_size duration_mode note_duration g
          = Some (Inr (res7, h7, g7))"
    using that by (intro keep ChangeRhythm_h_frame)
  show "melody_value h8 r = melody_value h r"
    if "ConcatMelodies_h h melody_1 melody_2 melody_3 melody_4 = (res8, h8)"
    using that by (intro keep ConcatMelodies_h_frame)
  show "melody_value h9 r = melody_value h r"
    if "SubstitutePitch_h h rhythm sequence crop_rhythm = (res9, h9)"
    using that by (intro keep SubstitutePitch_h_frame)
  show "melody_value h10 r = melody_value h r"
    if "SubstituteRhythm_h h sequence rhythm = (res10, h10)"
    using that by (intro keep SubstituteRhythm_h_frame)
qed

theorem operations_leave_melodies_unchanged_witness:
  "melody_ref example_heap 4
   \<and> melody_value example_heap 4
       = [Note (Pitch ''A4'') 1, Rest 1, Note (Pitch ''B4'') 2, Note (Pitch ''C4'') 3]
   \<and> melody_value (snd (RevertPitch_h example_heap 4)) 4
       = [Note (Pitch ''A4'') 1, Rest 1, Note (Pitch ''B4'') 2, Note (Pitch ''C4'') 3]
   \<and> melody_value (snd (RevertPitch_h example_heap 4)) (fst (RevertPitch_h example_heap 4))
       = [Note (Pitch ''C4'') 1, Rest 1, Note (Pitch ''B4'') 2, Note (Pitch ''A4'') 3]
   \<and> melody_value (snd (ConcatMelodies_h example_heap (Some 4) None (Some 4) None)) 4
       = [Note (Pitch ''A4'') 1, Rest 1, Note (Pitch ''B4'') 2, Note (Pitch ''C4'') 3]
   \<and> (case SwapPitch_h example_heap 4 AmountMode.Minimum None (\<lambda>i. i) of
         Inl e \<Rightarrow> False
       | Inr (res, h', g') \<Rightarrow>
           melody_value h' 4
             = [Note (Pitch ''A4'') 1, Rest 1, Note (Pitch ''B4'') 2, Note (Pitch ''C4'') 3]
           \<and> melody_value h' res
             = [Note (Pitch ''B4'') 1, Rest 1, Note (Pitch ''A4'') 2, Note (Pitch ''C4'') 3])"
proof -
  let ?m = "[Note (Pitch ''A4'') 1, Rest 1, Note (Pitch ''B4'') 2, Note (Pitch ''C4'') 3]"
  have r: "melody_ref example_heap 4" by (simp add: melody_ref_def example_heap_def)
  have v: "melody_value example_heap 4 = ?m" by (simp add: melody_value_def example_heap_def)
  note t = operations_leave_melodies_unchanged [OF r]
  note swap = t [THEN conjunct2, THEN conjunct1, THEN mp]
  note revert = t [THEN conjunct2, THEN conjunct2, THEN conjunct2, THEN conjunct2,
    THEN conjunct2, THEN conjunct1, THEN mp]
  note concat = t [THEN conjunct2, THEN conjunct2, THEN conjunct2, THEN conjunct2,
    THEN conjunct2, THEN conjunct2, THEN conjunct2, THEN conjunct1, THEN mp]
  have "RevertPitch_h example_heap 4
          = (fst (RevertPitch_h example_heap 4), snd (RevertPitch_h example_heap 4))" by simp
  then have a: "melody_value (snd (RevertPitch_h example_heap 4)) 4 = ?m"
    unfolding v [symmetric] by (rule revert)
  have b: "melody_value (snd (RevertPitch_h example_heap 4)) (fst (RevertPitch_h example_heap 4))
       = [Note (Pitch ''C4'') 1, Rest 1, Note (Pitch ''B4'') 2, Note (Pitch ''A4'') 3]"
    by code_simp
  have "ConcatMelodies_h example_heap (Some 4) None (Some 4) None
          = (fst (ConcatMelodies_h example_heap (Some 4) None (Some 4) None),
             snd (ConcatMelodies_h example_heap (Some 4) None (Some 4) None))" by simp
  then have c: "melody_value (snd (ConcatMelodies_h example_heap (Some 4) None (Some 4) None)) 4 = ?m"
    unfolding v [symmetric] by (rule concat)
  have s: "(case SwapPitch_h example_heap 4 AmountMode.Minimum None (\<lambda>i. i) of
         Inl e \<Rightarrow> False
       | Inr (res, h', g') \<Rightarrow> melody_value h' res
             = [Note (Pitch ''B4'') 1, Rest 1, Note (Pitch ''A4'') 2, Note (Pitch ''C4'') 3])"
    by code_simp
  have d: "(case SwapPitch_h example_heap 4 AmountMode.Minimum None (\<lambda>i. i) of
         Inl e \<Rightarrow> False
       | Inr (res, h', g') \<Rightarrow> melody_value h' 4 = ?m \<and> melody_value h' res
             = [Note (Pitch ''B4'') 1, Rest 1, Note (Pitch ''A4'') 2, Note (Pitch ''C4'') 3])"
  proof (cases "SwapPitch_h example_heap 4 AmountMode.Minimum None (\<lambda>i. i)")
    case (Inl e)
    then show ?thesis using s by simp
  next
    case (Inr x)
    obtain res h' g' where x: "x = (res, h', g')" by (cases x)
    have "SwapPitch_h example_heap 4 AmountMode.Minimum None (\<lambda>i. i) = Inr (res, h', g')"
      using Inr x by simp
    then have "melody_value h' 4 = ?m" unfolding v [symmetric] by (rule swap)
    then show ?thesis using s Inr x by simp
  qed
  show ?thesis using r v a b c d by blast
qed

lemma set_pitch_other: "b \<noteq> a \<Longrightarrow> objects (set_pitch h a p) b = objects h b"
  by (simp add: set_pitch_def)

lemma copy_pitches_other:
  "b \<notin> fst ` set pairs \<Longrightarrow> objects (copy_pitches h pairs) b = objects h b"
  by (induction h pairs rule: copy_pitches.induct) (auto simp: set_pitch_other)

lemma copy_pitches_streams: "streams (copy_pitches h pairs) = streams h"
  by (induction h pairs rule: copy_pitches.induct) simp_all

lemma copy_pitches_assign:
  "distinct elems \<Longrightarrow> set ss \<inter> set elems = {}
   \<Longrightarrow> map (objects (copy_pitches h (zip (filter (\<lambda>a. is_Note (objects h a)) elems) ss))) elems
       = assign_pitches (map (objects h) elems) (map (pitch_h h) ss)"
proof (induction elems arbitrary: h ss)
  case Nil
  show ?case by simp
next
  case (Cons a elems)
  have d: "distinct elems" and a: "a \<notin> set elems" using Cons.prems(1) by simp_all
  have s: "set ss \<inter> set elems = {}" and as: "a \<notin> set ss" using Cons.prems(2) by auto
  show ?case
  proof (cases "objects h a")
    case (Rest dur)
    let ?h' = "copy_pitches h (zip (filter (\<lambda>a. is_Note (objects h a)) elems) ss)"
    have "a \<notin> fst ` set (zip (filter (\<lambda>a. is_Note (objects h a)) elems) ss)"
      using a by (auto dest!: set_zip_leftD)
    then have "objects ?h' a = Rest dur" using Rest by (simp add: copy_pitches_other)
    then show ?thesis using Rest Cons.IH [OF d s, of h] by simp
  next
    case (Note p dur)
    show ?thesis
    proof (cases ss)
      case Nil
      then show ?thesis using Note Cons.IH [OF d, of "[]" h] by simp
    next
      case (Cons b ss')
      let ?h1 = "set_pitch h a (pitch_h h b)"
      have same: "\<forall>x \<in> set elems \<union> set ss'. objects ?h1 x = objects h x"
        using a as Cons by (auto simp: set_pitch_def)
      have f: "filter (\<lambda>x. is_Note (objects ?h1 x)) elems = filter (\<lambda>x. is_Note (objects h x)) elems"
        by simp
      have s': "set ss' \<inter> set elems = {}" using s Cons by auto
      let ?h' = "copy_pitches ?h1 (zip (filter (\<lambda>x. is_Note (objects ?h1 x)) elems) ss')"
      have IH: "map (objects ?h') elems
                  = assign_pitches (map (objects ?h1) elems) (map (pitch_h ?h1) ss')"
        by (rule Cons.IH [OF d s'])
      have m1: "map (objects ?h1) elems = map (objects h) elems"
        using same by (intro map_cong) auto
      have m2: "map (pitch_h ?h1) ss' = map (pitch_h h) ss'"
        using same by (intro map_cong) (auto simp: pitch_h_def)
      have "a \<notin> fst ` set (zip (filter (\<lambda>x. is_Note (objects ?h1 x)) elems) ss')"
        using a by (auto dest!: set_zip_leftD)
      then have oa: "objects ?h' a = Note (pitch_h h b) dur"
        using Note by (simp add: copy_pitches_other set_pitch_def)
      show ?thesis using Note Cons IH oa by (simp add: m1 m2 f)
    qed
  qed
qed

lemma new_melody_distinct:
  assumes "new_melody h objs = (r, h')"
  shows "distinct (streams h' r)" and "\<forall>a \<in> set (streams h' r). a < r" and "lim h' = Suc r"
proof -
  obtain as h1 where a: "alloc_objects h objs = (as, h1)" by (cases "alloc_objects h objs")
  have dist: "distinct bs \<and> (\<forall>b \<in> set bs. b < lim k')"
    if "alloc_objects k xs = (bs, k')" for k xs bs k'
    using that
  proof (induction xs arbitrary: k bs k')
    case Nil
    then show ?case by simp
  next
    case (Cons x xs)
    let ?k1 = "k\<lparr>objects := (objects k)(lim k := x), lim := Suc (lim k)\<rparr>"
    obtain cs k2 where r: "alloc_objects ?k1 xs = (cs, k2)" by (cases "alloc_objects ?k1 xs")
    then have e: "bs = lim k # cs" "k' = k2" using Cons.prems by (simp_all add: alloc_object_def)
    have "\<forall>c \<in> set cs. lim ?k1 \<le> c" using alloc_objects_props [OF r] by blast
    then have "lim k \<notin> set cs" by auto
    moreover have "lim k < lim k2" using alloc_objects_props [OF r] by simp
    ultimately show ?case using Cons.IH [OF r] e by simp
  qed
  have r: "r = lim h1" and h': "h' = h1\<lparr>streams := (streams h1)(lim h1 := as), lim := Suc (lim h1)\<rparr>"
    using assms a by (auto simp: new_melody_def alloc_stream_def)
  show "distinct (streams h' r)" using dist [OF a] by (simp add: h' r)
  show "\<forall>a \<in> set (streams h' r). a < r" using dist [OF a] by (simp add: h' r)
  show "lim h' = Suc r" by (simp add: h' r)
qed

lemma notes_value: "map (objects h) (notes_h h r) = melody_notes (melody_value h r)"
  by (simp add: notes_h_def melody_notes_def melody_value_def filter_map comp_def)

text \<open>
  The operation on objects and the operation on values agree: the Melody that
  RevertPitch returns in the store has the value that \<open>RevertPitch\<close> computes from the
  value of the Melody it was given.
\<close>

lemma RevertPitch_h_value:
  assumes "RevertPitch_h h r = (res, h')"
  shows "melody_value h' res = RevertPitch (melody_value h r)"
proof -
  obtain m h1 where d: "deepcopy h r = (m, h1)" by (cases "deepcopy h r")
  then have nm: "new_melody h (melody_value h r) = (m, h1)" by (simp add: deepcopy_def)
  note v1 = new_melody_props(3) [OF nm] and dist = new_melody_distinct [OF nm]
  have len: "length_h h1 m = melody_length (melody_value h r)"
    using notes_value [of h1 m] v1 by (metis length_h_def length_map melody_length_def)
  show ?thesis
  proof (cases "melody_length (melody_value h r) < 2")
    case True
    then have "res = m" "h' = h1" using assms d len by (simp_all add: RevertPitch_h_def)
    then show ?thesis using True v1 by (simp add: RevertPitch_def)
  next
    case False
    obtain copied h2 where c: "deepcopy_list h1 (notes_h h1 m) = (copied, h2)"
      by (cases "deepcopy_list h1 (notes_h h1 m)")
    note p = alloc_objects_props [OF c [unfolded deepcopy_list_def]]
    have res: "res = m" and h': "h' = copy_pitches h2 (zip (notes_h h2 m) (rev copied))"
      using assms d c False len by (auto simp: RevertPitch_h_def)
    have st: "streams h2 m = streams h1 m" using p by simp
    have ob: "\<forall>a \<in> set (streams h1 m). objects h2 a = objects h1 a"
      using p dist(2,3) by auto
    have disj: "set (rev copied) \<inter> set (streams h2 m) = {}"
      using p dist(2,3) st by fastforce
    have v2: "map (objects h2) (streams h2 m) = melody_value h r"
      using ob v1 unfolding st melody_value_def by (metis (no_types, lifting) map_eq_conv)
    have cp: "map (objects h2) copied = melody_notes (melody_value h r)"
      using p notes_value [of h1 m] v1 by simp
    have "melody_value h' res
            = assign_pitches (map (objects h2) (streams h2 m)) (map (pitch_h h2) (rev copied))"
      unfolding melody_value_def res h' notes_h_def
      using copy_pitches_assign [of "streams h2 m" "rev copied" h2] dist(1) disj st
      by (simp add: copy_pitches_streams)
    moreover have "map (pitch_h h2) (rev copied) = map pitch (rev (melody_notes (melody_value h r)))"
    proof -
      have "map (pitch_h h2) (rev copied) = map pitch (map (objects h2) (rev copied))"
        by (simp add: pitch_h_def)
      also have "\<dots> = map pitch (rev (map (objects h2) copied))" by (simp only: rev_map)
      finally show ?thesis by (simp only: cp)
    qed
    ultimately show ?thesis using False v2 by (simp add: RevertPitch_def Let_def)
  qed
qed

end
